theory Spec2Isabelle
  imports Main "HOL-Library.Word" "HOL-Library.Multiset"
begin

section \<open>lru: the byte-accounted LRU cache (geecache/lru/lru.go)\<close>

text \<open>
  \<open>maxBytes\<close> and \<open>nbytes\<close> are \<open>int64\<close> in the source and are 64-bit words here:
  \<open>+\<close> and \<open>-\<close> wrap, and the comparison of the eviction loop is the signed \<open>\<le>s\<close>/\<open><s\<close>.

  The source keeps a \<open>container/list\<close> of \<open>*list.Element\<close> and a map from keys to the same
  element pointers. An element pointer is an address (a \<open>nat\<close>); \<open>ll\<close> is the list of
  element addresses from front to back; \<open>elems\<close> is the store that holds, for each
  element, the \<open>*entry\<close> in its \<open>Value\<close> field; \<open>cache\<close> is the Go map. \<open>nextElem\<close> is
  the allocator: the address the next \<open>PushFront\<close> returns.

  \<open>Value\<close> is an interface with one method \<open>Len() int\<close>: the operations take that
  method as the parameter \<open>Len\<close>, already converted to \<open>int64\<close>.

  \<open>OnEvicted\<close> is a callback of the caller. The model records whether one is installed
  and, in \<open>evicted\<close>, the arguments of every invocation in order.

  Every operation returns an \<open>option\<close>: \<open>None\<close> means that the call does not return
  normally (the type assertion \<open>ele.Value.(*entry)\<close> panics on an element without an
  entry, or the eviction loop of \<open>Add\<close> runs forever).
\<close>

type_synonym int64 = "64 word"

record 'v entry =
  key :: string
  "value" :: 'v

record 'v Cache =
  maxBytes :: int64
  nbytes :: int64
  ll :: "nat list"
  elems :: "nat \<rightharpoonup> 'v entry"
  cache :: "string \<rightharpoonup> nat"
  OnEvicted :: bool
  evicted :: "(string \<times> 'v) list"
  nextElem :: nat

definition lru_New :: "int64 \<Rightarrow> bool \<Rightarrow> 'v Cache" where
  "lru_New maxBytes' OnEvicted' =
     \<lparr>maxBytes = maxBytes', nbytes = 0, ll = [], elems = Map.empty, cache = Map.empty,
      OnEvicted = OnEvicted', evicted = [], nextElem = 0\<rparr>"

text \<open>\<open>container/list\<close>: \<open>MoveToFront\<close> and \<open>Remove\<close> do nothing for an element that is
  not in the list; \<open>Back\<close> is nil on the empty list.\<close>

definition MoveToFront :: "nat \<Rightarrow> nat list \<Rightarrow> nat list" where
  "MoveToFront e l = (if e \<in> set l then e # remove1 e l else l)"

definition Remove :: "nat \<Rightarrow> nat list \<Rightarrow> nat list" where
  "Remove e l = remove1 e l"

definition Back :: "nat list \<Rightarrow> nat option" where
  "Back l = (if l = [] then None else Some (last l))"

definition PushFront :: "nat \<Rightarrow> nat list \<Rightarrow> nat list" where
  "PushFront e l = e # l"

definition Cache_Get :: "'v Cache \<Rightarrow> string \<Rightarrow> ('v Cache \<times> 'v option) option" where
  "Cache_Get c k =
     (case cache c k of
        Some ele \<Rightarrow>
          (case elems c ele of
             None \<Rightarrow> None
           | Some kv \<Rightarrow> Some (c\<lparr>ll := MoveToFront ele (ll c)\<rparr>, Some (value kv)))
      | None \<Rightarrow> Some (c, None))"

definition Cache_RemoveOldest :: "('v \<Rightarrow> int64) \<Rightarrow> 'v Cache \<Rightarrow> 'v Cache option" where
  "Cache_RemoveOldest Len c =
     (case Back (ll c) of
        None \<Rightarrow> Some c
      | Some ele \<Rightarrow>
          (case elems c ele of
             None \<Rightarrow> None
           | Some kv \<Rightarrow>
               Some (c\<lparr>ll := Remove ele (ll c),
                       cache := (cache c)(key kv := None),
                       nbytes := nbytes c - (of_nat (length (key kv)) + Len (value kv)),
                       evicted := (if OnEvicted c then evicted c @ [(key kv, value kv)]
                                   else evicted c)\<rparr>)))"

text \<open>The loop \<open>for c.maxBytes != 0 && c.maxBytes < c.nbytes { c.RemoveOldest() }\<close>.\<close>

partial_function (option) evict :: "('v \<Rightarrow> int64) \<Rightarrow> 'v Cache \<Rightarrow> 'v Cache option" where
  "evict Len c =
     (if maxBytes c \<noteq> 0 \<and> maxBytes c <s nbytes c
      then Option.bind (Cache_RemoveOldest Len c) (evict Len)
      else Some c)"

text \<open>The two branches of \<open>Add\<close> before the loop.\<close>

definition insert_entry :: "('v \<Rightarrow> int64) \<Rightarrow> 'v Cache \<Rightarrow> string \<Rightarrow> 'v \<Rightarrow> 'v Cache option" where
  "insert_entry Len c k v =
     (case cache c k of
        Some ele \<Rightarrow>
          (case elems c ele of
             None \<Rightarrow> None
           | Some kv \<Rightarrow>
               Some (c\<lparr>ll := MoveToFront ele (ll c),
                       nbytes := nbytes c + (Len v - Len (value kv)),
                       elems := (elems c)(ele \<mapsto> kv\<lparr>value := v\<rparr>)\<rparr>))
      | None \<Rightarrow>
          (let ele = nextElem c in
           Some (c\<lparr>ll := PushFront ele (ll c),
                   elems := (elems c)(ele \<mapsto> \<lparr>key = k, value = v\<rparr>),
                   cache := (cache c)(k \<mapsto> ele),
                   nbytes := nbytes c + (of_nat (length k) + Len v),
                   nextElem := Suc ele\<rparr>)))"

definition Cache_Add :: "('v \<Rightarrow> int64) \<Rightarrow> 'v Cache \<Rightarrow> string \<Rightarrow> 'v \<Rightarrow> 'v Cache option" where
  "Cache_Add Len c k v = Option.bind (insert_entry Len c k v) (evict Len)"

definition Cache_Len :: "'v Cache \<Rightarrow> nat" where
  "Cache_Len c = length (ll c)"

text \<open>Sequences of calls of the public methods on one cache.\<close>

datatype 'v lru_op = OpGet string | OpAdd string 'v

fun lru_step :: "('v \<Rightarrow> int64) \<Rightarrow> 'v Cache \<Rightarrow> 'v lru_op \<Rightarrow> 'v Cache option" where
  "lru_step Len c (OpGet k) = map_option fst (Cache_Get c k)"
| "lru_step Len c (OpAdd k v) = Cache_Add Len c k v"

fun lru_run :: "('v \<Rightarrow> int64) \<Rightarrow> 'v Cache \<Rightarrow> 'v lru_op list \<Rightarrow> 'v Cache option" where
  "lru_run Len c [] = Some c"
| "lru_run Len c (x # xs) = Option.bind (lru_step Len c x) (\<lambda>c'. lru_run Len c' xs)"

text \<open>The bytes an entry is charged with, the entries present from front to back, and
  the sum the counter is compared with (in \<open>int64\<close> arithmetic, as the counter).\<close>

definition entry_bytes :: "('v \<Rightarrow> int64) \<Rightarrow> 'v entry \<Rightarrow> int64" where
  "entry_bytes Len kv = of_nat (length (key kv)) + Len (value kv)"

fun entries_of :: "(nat \<rightharpoonup> 'v entry) \<Rightarrow> nat list \<Rightarrow> 'v entry list" where
  "entries_of h [] = []"
| "entries_of h (a # as) =
     (case h a of Some kv \<Rightarrow> kv # entries_of h as | None \<Rightarrow> entries_of h as)"

definition entries :: "'v Cache \<Rightarrow> 'v entry list" where
  "entries c = entries_of (elems c) (ll c)"

definition total_bytes :: "('v \<Rightarrow> int64) \<Rightarrow> 'v Cache \<Rightarrow> int64" where
  "total_bytes Len c = sum_list (map (entry_bytes Len) (entries c))"

text \<open>The list and the map hold the same elements: every element of the list has an
  entry whose key the map sends back to that element, and every binding of the map
  points to an element of the list that carries that key.\<close>

definition lru_inv :: "'v Cache \<Rightarrow> bool" where
  "lru_inv c \<longleftrightarrow>
     distinct (ll c) \<and>
     (\<forall>a \<in> set (ll c). a < nextElem c \<and> (\<exists>kv. elems c a = Some kv \<and> cache c (key kv) = Some a)) \<and>
     (\<forall>k a. cache c k = Some a \<longrightarrow> a \<in> set (ll c) \<and> (\<exists>kv. elems c a = Some kv \<and> key kv = k))"


text \<open>The properties of a cache that every call keeps: the list and the map agree and
  the counter is the sum (\<open>lru_ok\<close>); on exit of a call also the budget (\<open>lru_good\<close>).
  \<open>evict_spec\<close> is what the eviction loop establishes when it returns.\<close>

definition lru_ok :: "('v \<Rightarrow> int64) \<Rightarrow> 'v Cache \<Rightarrow> bool" where
  "lru_ok Len c \<longleftrightarrow> lru_inv c \<and> nbytes c = total_bytes Len c"

definition lru_good :: "('v \<Rightarrow> int64) \<Rightarrow> 'v Cache \<Rightarrow> bool" where
  "lru_good Len c \<longleftrightarrow> lru_ok Len c \<and> (0 <s maxBytes c \<longrightarrow> nbytes c \<le>s maxBytes c)"

definition evict_spec :: "('v \<Rightarrow> int64) \<Rightarrow> 'v Cache \<Rightarrow> 'v Cache \<Rightarrow> bool" where
  "evict_spec Len c c' \<longleftrightarrow>
     (lru_inv c \<and> nbytes c = total_bytes Len c \<longrightarrow>
      lru_inv c' \<and> nbytes c' = total_bytes Len c' \<and> maxBytes c' = maxBytes c \<and>
      \<not> (maxBytes c' \<noteq> 0 \<and> maxBytes c' <s nbytes c') \<and>
      elems c' = elems c \<and> OnEvicted c' = OnEvicted c \<and>
      (\<exists>n. ll c' = take n (ll c)))"

text \<open>The key of the front entry of the recency list, if there is one.\<close>

definition front_key :: "'v Cache \<Rightarrow> string option" where
  "front_key c = (case ll c of [] \<Rightarrow> None | a # _ \<Rightarrow> map_option key (elems c a))"

text \<open>The bytes of an entry as an unbounded integer, to say that a sum does not leave
  the range of \<open>int64\<close>.\<close>

definition entry_size :: "('v \<Rightarrow> int64) \<Rightarrow> 'v entry \<Rightarrow> int" where
  "entry_size Len kv = int (length (key kv)) + sint (Len (value kv))"

definition total_size :: "('v \<Rightarrow> int64) \<Rightarrow> 'v Cache \<Rightarrow> int" where
  "total_size Len c = sum_list (map (entry_size Len) (entries c))"

text \<open>A \<open>Value\<close> for examples: a string whose \<open>Len\<close> is its length.\<close>

definition String_Len :: "string \<Rightarrow> int64" where
  "String_Len d = of_nat (length d)"


section \<open>consistenthash: the hash ring (geecache/consistenthash/consistenthash.go)\<close>

text \<open>
  \<open>Hash\<close> is \<open>func(data []byte) uint32\<close>. The ring keeps the hashes as Go \<open>int\<close>s:
  \<open>int(m.hash(...))\<close> is the unsigned value of the 32-bit word (on a 64-bit platform
  every \<open>uint32\<close> is an \<open>int\<close>). \<open>hashMap\<close> is a Go map: a missing key reads as the empty
  string. \<open>crc\<close> stands for \<open>crc32.ChecksumIEEE\<close> of the Go library, the default hash.
\<close>

type_synonym Hash = "string \<Rightarrow> 32 word"

record consistenthash_Map =
  hash :: Hash
  replicas :: int
  keys :: "int list"
  hashMap :: "int \<rightharpoonup> string"

definition consistenthash_New :: "Hash \<Rightarrow> int \<Rightarrow> Hash option \<Rightarrow> consistenthash_Map" where
  "consistenthash_New crc replicas' fn =
     \<lparr>hash = (case fn of None \<Rightarrow> crc | Some f \<Rightarrow> f), replicas = replicas', keys = [],
      hashMap = Map.empty\<rparr>"

text \<open>\<open>strconv.Itoa\<close>: the decimal digits of an \<open>int\<close>.\<close>

fun itoa_nat :: "nat \<Rightarrow> string" where
  "itoa_nat n = (if n < 10 then [char_of (48 + n)] else itoa_nat (n div 10) @ [char_of (48 + n mod 10)])"

definition Itoa :: "int \<Rightarrow> string" where
  "Itoa i = (if i < 0 then CHR ''-'' # itoa_nat (nat (- i)) else itoa_nat (nat i))"

text \<open>The inner loop of \<open>Add\<close>, \<open>for i := 0; i < m.replicas; i++\<close>, from \<open>i\<close> on.\<close>

function add_replicas :: "consistenthash_Map \<Rightarrow> string \<Rightarrow> int \<Rightarrow> consistenthash_Map" where
  "add_replicas m k i =
     (if i < replicas m
      then (let h = uint (hash m (Itoa i @ k))
            in add_replicas (m\<lparr>keys := keys m @ [h], hashMap := (hashMap m)(h \<mapsto> k)\<rparr>) k (i + 1))
      else m)"
  by pat_completeness auto
termination
  by (relation "measure (\<lambda>(m, k, i). nat (replicas m - i))") auto

definition Map_Add :: "consistenthash_Map \<Rightarrow> string list \<Rightarrow> consistenthash_Map" where
  "Map_Add m ks = (let m' = fold (\<lambda>k m. add_replicas m k 0) ks m in m'\<lparr>keys := sort (keys m')\<rparr>)"

text \<open>\<open>sort.Search(n, f)\<close> of the Go library: binary search for the least index in
  \<open>[0, n)\<close> at which \<open>f\<close> holds, \<open>n\<close> when there is none.\<close>

function search_loop :: "(nat \<Rightarrow> bool) \<Rightarrow> nat \<Rightarrow> nat \<Rightarrow> nat" where
  "search_loop f i j =
     (if i < j
      then (let h = (i + j) div 2
            in if \<not> f h then search_loop f (h + 1) j else search_loop f i h)
      else i)"
  by pat_completeness auto
termination
  by (relation "measure (\<lambda>(f, i, j). j - i)") auto

definition Search :: "nat \<Rightarrow> (nat \<Rightarrow> bool) \<Rightarrow> nat" where
  "Search n f = search_loop f 0 n"

definition SearchInts :: "int list \<Rightarrow> int \<Rightarrow> nat" where
  "SearchInts a x = Search (length a) (\<lambda>i. a ! i \<ge> x)"

definition hashMap_at :: "consistenthash_Map \<Rightarrow> int \<Rightarrow> string" where
  "hashMap_at m h = (case hashMap m h of None \<Rightarrow> [] | Some p \<Rightarrow> p)"

definition Map_Get :: "consistenthash_Map \<Rightarrow> string \<Rightarrow> string" where
  "Map_Get m k =
     (if length (keys m) = 0 then []
      else (let h = uint (hash m k);
                idx = Search (length (keys m)) (\<lambda>i. keys m ! i \<ge> h)
            in hashMap_at m (keys m ! (idx mod length (keys m)))))"

text \<open>The loop of \<open>Remove\<close> from \<open>i\<close> on. \<open>m.keys[idx+1:]\<close> panics when \<open>idx\<close> is the
  length of \<open>m.keys\<close>: the result is \<open>None\<close> then.\<close>

function remove_replicas :: "consistenthash_Map \<Rightarrow> string \<Rightarrow> int \<Rightarrow> consistenthash_Map option" where
  "remove_replicas m k i =
     (if i < replicas m
      then (let h = uint (hash m (Itoa i @ k));
                idx = SearchInts (keys m) h
            in if idx + 1 > length (keys m) then None
               else remove_replicas
                      (m\<lparr>keys := take idx (keys m) @ drop (idx + 1) (keys m),
                        hashMap := (hashMap m)(h := None)\<rparr>) k (i + 1))
      else Some m)"
  by pat_completeness auto
termination
  by (relation "measure (\<lambda>(m, k, i). nat (replicas m - i))") auto

definition Map_Remove :: "consistenthash_Map \<Rightarrow> string \<Rightarrow> consistenthash_Map option" where
  "Map_Remove m k = remove_replicas m k 0"

text \<open>What the specification says \<open>Get\<close> returns: nothing on an empty ring, otherwise the
  peer bound to the first hash of \<open>K\<close> that is at least \<open>H(key)\<close>, and to \<open>K[0]\<close> when
  there is none.\<close>

definition first_at_least :: "int list \<Rightarrow> int \<Rightarrow> int option" where
  "first_at_least K h = find (\<lambda>x. x \<ge> h) K"

definition Ring_Get_spec :: "consistenthash_Map \<Rightarrow> string \<Rightarrow> string" where
  "Ring_Get_spec m k =
     (case keys m of
        [] \<Rightarrow> []
      | k0 # _ \<Rightarrow>
          (case first_at_least (keys m) (uint (hash m k)) of
             Some x \<Rightarrow> hashMap_at m x
           | None \<Rightarrow> hashMap_at m k0))"

text \<open>The hashes of the virtual nodes of a peer, in the order \<open>Add\<close> and \<open>Remove\<close> visit
  them.\<close>

definition vnode_hashes :: "consistenthash_Map \<Rightarrow> string \<Rightarrow> int list" where
  "vnode_hashes m p = map (\<lambda>i. uint (hash m (Itoa (int i) @ p))) [0 ..< nat (replicas m)]"

text \<open>The hash of the virtual node \<open>j\<close> of a peer.\<close>

definition vhash :: "consistenthash_Map \<Rightarrow> string \<Rightarrow> nat \<Rightarrow> int" where
  "vhash m p j = uint (hash m (Itoa (int j) @ p))"

text \<open>A ring for examples, that of the specification's scenario S3: three virtual nodes
  per peer, the hash of a string is the decimal number it spells, peers 6, 4 and 2.\<close>

definition atoi_Hash :: Hash where
  "atoi_Hash s = of_nat (fold (\<lambda>c n. 10 * n + (of_char c - 48)) s 0)"

definition ring3 :: consistenthash_Map where
  "ring3 = Map_Add (consistenthash_New (\<lambda>_. 0) 3 (Some atoi_Hash)) [''6'', ''4'', ''2'']"


section \<open>Results of calls\<close>

text \<open>
  A Go call returns its results, panics, or never returns (it waits on a latch that
  nobody releases, or loops forever). A Go \<open>error\<close> is its message; \<open>nil\<close> is \<open>None\<close>.
  A pair \<open>(value, error)\<close> of results is a pair here, as both are returned.
\<close>

datatype 'a outcome = Returned 'a | Panicked | Hangs

datatype error = Error string


section \<open>singleflight (geecache/singleflight/singleflight.go)\<close>

text \<open>
  One caller at a time: the model is the sequence of steps of \<open>Do\<close> for a single
  goroutine. \<open>wg\<close> is the counter of the \<open>sync.WaitGroup\<close>; \<open>val\<close> is an
  \<open>interface{}\<close>, \<open>None\<close> when nil. The map \<open>m\<close> of the source (here \<open>calls\<close>) is nil
  until the first \<open>Do\<close>. The map holds \<open>*call\<close> pointers and \<open>Do\<close> writes the results
  through its own pointer \<open>c\<close>: the model writes them to the binding of the key.

  \<open>fn\<close> runs in an environment of the caller's that it may change (for \<open>Group.load\<close>,
  the group with its cache): it takes the environment and returns it with its outcome.
  A \<open>Wait\<close> on a counter that is not zero does not return when no other goroutine is
  left to call \<open>Done\<close>.
\<close>

record 'v call =
  wg :: nat
  val :: "'v option"
  err :: "error option"

record 'v singleflight_Group =
  calls :: "(string \<rightharpoonup> 'v call) option"

definition singleflight_Do ::
  "'v singleflight_Group \<Rightarrow> string \<Rightarrow> ('e \<Rightarrow> 'e \<times> ('v option \<times> error option) outcome) \<Rightarrow> 'e
     \<Rightarrow> 'v singleflight_Group \<times> 'e \<times> ('v option \<times> error option) outcome" where
  "singleflight_Do g k fn env =
     (let m0 = (case calls g of None \<Rightarrow> Map.empty | Some m' \<Rightarrow> m')
      in case m0 k of
           Some c \<Rightarrow>
             (if wg c = 0 then (g\<lparr>calls := Some m0\<rparr>, env, Returned (val c, err c))
              else (g\<lparr>calls := Some m0\<rparr>, env, Hangs))
         | None \<Rightarrow>
             (let c = \<lparr>wg = 1, val = None, err = None\<rparr>;
                  m1 = m0(k \<mapsto> c)
              in case fn env of
                   (env', Returned (v, e)) \<Rightarrow>
                     (let c' = c\<lparr>val := v, err := e, wg := wg c - 1\<rparr>;
                          m2 = (m1(k \<mapsto> c'))(k := None)
                      in (g\<lparr>calls := Some m2\<rparr>, env', Returned (val c', err c')))
                 | (env', Panicked) \<Rightarrow> (g\<lparr>calls := Some m1\<rparr>, env', Panicked)
                 | (env', Hangs) \<Rightarrow> (g\<lparr>calls := Some m1\<rparr>, env', Hangs)))"

text \<open>The handle that is in flight for a key, if any.\<close>

definition in_flight :: "'v singleflight_Group \<Rightarrow> string \<Rightarrow> 'v call option" where
  "in_flight g k = (case calls g of None \<Rightarrow> None | Some m' \<Rightarrow> m' k)"


section \<open>ByteView (geecache/byteview.go)\<close>

text \<open>Bytes are the 8-bit characters of a \<open>string\<close>. The field \<open>b\<close> of the source is
  the selector \<open>ByteView_b\<close>; a slice is modelled by its contents, so \<open>cloneBytes\<close> is
  the identity on them.\<close>

datatype ByteView = ByteView (ByteView_b: string)

definition ByteView_Len :: "ByteView \<Rightarrow> int64" where
  "ByteView_Len v = of_nat (length (ByteView_b v))"

definition cloneBytes :: "string \<Rightarrow> string" where
  "cloneBytes bs = bs"

definition ByteView_ByteSlice :: "ByteView \<Rightarrow> string" where
  "ByteView_ByteSlice v = cloneBytes (ByteView_b v)"

definition ByteView_String :: "ByteView \<Rightarrow> string" where
  "ByteView_String v = ByteView_b v"


section \<open>The cache of a group\<close>

text \<open>
  Modelled from the spec: the type \<open>cache\<close> of the group's field \<open>mainCache\<close> and its
  methods \<open>get\<close> and \<open>add\<close> are used by \<open>geecache.go\<close> but are not among the sources.
  The specification gives a group a bounded LRU of its own, consulted by \<open>Get\<close> and
  filled by \<open>populateCache\<close> under a mutex; \<open>NewGroup\<close> builds the value as
  \<open>cache{cacheBytes: cacheBytes}\<close>, so the LRU is created by the first \<open>add\<close>, with that
  budget and no eviction callback. A \<open>get\<close> before that finds nothing. Both return
  \<open>None\<close> when the call of the LRU does not return.
\<close>

record cache =
  cacheBytes :: int64
  lru :: "ByteView Cache option"

definition cache_add :: "cache \<Rightarrow> string \<Rightarrow> ByteView \<Rightarrow> cache option" where
  "cache_add c k v =
     (let l = (case lru c of None \<Rightarrow> lru_New (cacheBytes c) False | Some l' \<Rightarrow> l')
      in map_option (\<lambda>l'. c\<lparr>lru := Some l'\<rparr>) (Cache_Add ByteView_Len l k v))"

definition cache_get :: "cache \<Rightarrow> string \<Rightarrow> (cache \<times> ByteView option) option" where
  "cache_get c k =
     (case lru c of
        None \<Rightarrow> Some (c, None)
      | Some l \<Rightarrow> map_option (\<lambda>(l', r). (c\<lparr>lru := Some l'\<rparr>, r)) (Cache_Get l k))"


section \<open>Group (geecache/geecache.go, geecache/peers.go)\<close>

text \<open>
  \<open>Getter\<close>, \<open>PeerGetter\<close> and \<open>PeerPicker\<close> are interfaces of the caller: a loader
  \<open>Get(key)\<close>, a peer client \<open>Get(group, key)\<close> and \<open>PickPeer(key)\<close>, each modelled by the
  results it gives. A \<open>PeerPicker\<close> may hand out a nil client with \<open>ok = true\<close>; calling
  it panics. \<open>loader\<close> points to a \<open>singleflight.Group\<close> of its own. Logging is left out.
  A \<open>get\<close> of the cache that does not return has panicked (the LRU's \<open>Get\<close> has no
  loop); an \<open>add\<close> that does not return is taken to run the eviction loop forever,
  which is what happens on a cache the group has built when the budget is negative.
\<close>

type_synonym Getter = "string \<Rightarrow> string \<times> error option"
type_synonym PeerGetter = "string \<Rightarrow> string \<Rightarrow> string \<times> error option"
type_synonym PeerPicker = "string \<Rightarrow> PeerGetter option \<times> bool"

record Group =
  name :: string
  getter :: Getter
  mainCache :: cache
  peers :: "PeerPicker option"
  loader :: "ByteView singleflight_Group"

text \<open>The registry \<open>groups\<close> is a map from names to \<open>*Group\<close>; a call that changes a
  registered group writes it back under its name.\<close>

type_synonym registry = "string \<rightharpoonup> Group"

definition NewGroup :: "registry \<Rightarrow> string \<Rightarrow> int64 \<Rightarrow> Getter option \<Rightarrow> (registry \<times> Group) outcome" where
  "NewGroup groups nm cacheBytes' getter' =
     (case getter' of
        None \<Rightarrow> Panicked
      | Some gt \<Rightarrow>
          (let g = \<lparr>name = nm, getter = gt,
                    mainCache = \<lparr>cacheBytes = cacheBytes', lru = None\<rparr>,
                    peers = None, loader = \<lparr>calls = None\<rparr>\<rparr>
           in Returned (groups(nm \<mapsto> g), g)))"

definition GetGroup :: "registry \<Rightarrow> string \<Rightarrow> Group option" where
  "GetGroup groups nm = groups nm"

definition Group_RegisterPeers :: "Group \<Rightarrow> PeerPicker \<Rightarrow> Group outcome" where
  "Group_RegisterPeers g picker =
     (if peers g \<noteq> None then Panicked else Returned (g\<lparr>peers := Some picker\<rparr>))"

definition Group_getFromPeer :: "Group \<Rightarrow> PeerGetter option \<Rightarrow> string \<Rightarrow> (ByteView \<times> error option) outcome" where
  "Group_getFromPeer g peer k =
     (case peer of
        None \<Rightarrow> Panicked
      | Some p \<Rightarrow>
          (case p (name g) k of
             (bytes, Some e) \<Rightarrow> Returned (ByteView [], Some e)
           | (bytes, None) \<Rightarrow> Returned (ByteView bytes, None)))"

definition Group_populateCache :: "Group \<Rightarrow> string \<Rightarrow> ByteView \<Rightarrow> Group option" where
  "Group_populateCache g k v = map_option (\<lambda>c. g\<lparr>mainCache := c\<rparr>) (cache_add (mainCache g) k v)"

definition Group_getLocally :: "Group \<Rightarrow> string \<Rightarrow> Group \<times> (ByteView \<times> error option) outcome" where
  "Group_getLocally g k =
     (case getter g k of
        (bytes, Some e) \<Rightarrow> (g, Returned (ByteView [], Some e))
      | (bytes, None) \<Rightarrow>
          (let v = ByteView (cloneBytes bytes)
           in case Group_populateCache g k v of
                None \<Rightarrow> (g, Hangs)
              | Some g' \<Rightarrow> (g', Returned (v, None))))"

text \<open>The function literal that \<open>load\<close> passes to \<open>Do\<close>; its result is an
  \<open>interface{}\<close> that holds the \<open>ByteView\<close>.\<close>

definition load_local :: "string \<Rightarrow> Group \<Rightarrow> Group \<times> (ByteView option \<times> error option) outcome" where
  "load_local k g =
     (case Group_getLocally g k of
        (g', Returned (v, e)) \<Rightarrow> (g', Returned (Some v, e))
      | (g', Panicked) \<Rightarrow> (g', Panicked)
      | (g', Hangs) \<Rightarrow> (g', Hangs))"

definition load_fn :: "string \<Rightarrow> Group \<Rightarrow> Group \<times> (ByteView option \<times> error option) outcome" where
  "load_fn k g =
     (case peers g of
        Some picker \<Rightarrow>
          (case picker k of
             (peer, True) \<Rightarrow>
               (case Group_getFromPeer g peer k of
                  Returned (v, None) \<Rightarrow> (g, Returned (Some v, None))
                | Returned (v, Some e) \<Rightarrow> load_local k g
                | Panicked \<Rightarrow> (g, Panicked)
                | Hangs \<Rightarrow> (g, Hangs))
           | (peer, False) \<Rightarrow> load_local k g)
      | None \<Rightarrow> load_local k g)"

definition Group_load :: "Group \<Rightarrow> string \<Rightarrow> Group \<times> (ByteView \<times> error option) outcome" where
  "Group_load g k =
     (case singleflight_Do (loader g) k (load_fn k) g of
        (l', g', Returned (viewi, None)) \<Rightarrow>
          (case viewi of
             Some v \<Rightarrow> (g'\<lparr>loader := l'\<rparr>, Returned (v, None))
           | None \<Rightarrow> (g'\<lparr>loader := l'\<rparr>, Panicked))
      | (l', g', Returned (viewi, Some e)) \<Rightarrow> (g'\<lparr>loader := l'\<rparr>, Returned (ByteView [], Some e))
      | (l', g', Panicked) \<Rightarrow> (g'\<lparr>loader := l'\<rparr>, Panicked)
      | (l', g', Hangs) \<Rightarrow> (g'\<lparr>loader := l'\<rparr>, Hangs))"

definition Group_Get :: "Group \<Rightarrow> string \<Rightarrow> Group \<times> (ByteView \<times> error option) outcome" where
  "Group_Get g k =
     (if k = [] then (g, Returned (ByteView [], Some (Error ''key is required'')))
      else case cache_get (mainCache g) k of
             None \<Rightarrow> (g, Panicked)
           | Some (c, Some v) \<Rightarrow> (g\<lparr>mainCache := c\<rparr>, Returned (v, None))
           | Some (c, None) \<Rightarrow> Group_load (g\<lparr>mainCache := c\<rparr>) k)"

text \<open>\<open>Get\<close> through a \<open>*Group\<close> that may be nil: the test of the key comes before
  the first use of the receiver, which panics on nil.\<close>

definition Group_Get_ptr :: "Group option \<Rightarrow> string \<Rightarrow> Group option \<times> (ByteView \<times> error option) outcome" where
  "Group_Get_ptr gp k =
     (case gp of
        None \<Rightarrow>
          (if k = [] then (None, Returned (ByteView [], Some (Error ''key is required'')))
           else (None, Panicked))
      | Some g \<Rightarrow> (case Group_Get g k of (g', r) \<Rightarrow> (Some g', r)))"

text \<open>Whether a key is in the cache of a group, without touching the recency list.\<close>

definition cached :: "Group \<Rightarrow> string \<Rightarrow> bool" where
  "cached g k = (case lru (mainCache g) of None \<Rightarrow> False | Some l \<Rightarrow> cache l k \<noteq> None)"


section \<open>HTTPPool (geecache/http.go)\<close>

definition defaultBasePath :: string where
  "defaultBasePath = ''/_geecache/''"

definition defaultReplicas :: int where
  "defaultReplicas = 50"

record httpGetter =
  baseURL :: string

record HTTPPool =
  self :: string
  basePath :: string
  ring :: "consistenthash_Map option"
  httpGetters :: "string \<rightharpoonup> httpGetter"

definition NewHTTPool :: "string \<Rightarrow> HTTPPool" where
  "NewHTTPool self' = \<lparr>self = self', basePath = defaultBasePath, ring = None, httpGetters = Map.empty\<rparr>"

definition HTTPPool_Set :: "Hash \<Rightarrow> HTTPPool \<Rightarrow> string list \<Rightarrow> HTTPPool" where
  "HTTPPool_Set crc p ps =
     p\<lparr>ring := Some (Map_Add (consistenthash_New crc defaultReplicas None) ps),
       httpGetters := fold (\<lambda>peer hg. hg(peer \<mapsto> \<lparr>baseURL = peer @ basePath p\<rparr>)) ps Map.empty\<rparr>"

text \<open>The field \<open>peers\<close> of the pool is \<open>ring\<close> here (\<open>peers\<close> names the picker of a
  group). \<open>p.peers\<close> is nil until \<open>Set\<close>; \<open>Get\<close> on it panics. The client returned with
  \<open>true\<close> is \<open>p.httpGetters[peer]\<close>, nil when the table has no such peer.\<close>

definition HTTPPool_PickPeer :: "HTTPPool \<Rightarrow> string \<Rightarrow> (httpGetter option \<times> bool) outcome" where
  "HTTPPool_PickPeer p k =
     (case ring p of
        None \<Rightarrow> Panicked
      | Some r \<Rightarrow>
          (let peer = Map_Get r k
           in if peer \<noteq> [] \<and> peer \<noteq> self p then Returned (httpGetters p peer, True)
              else Returned (None, False)))"

text \<open>
  The response of \<open>net/http\<close>: the status is that of the first \<open>WriteHeader\<close>; a later
  one is ignored, as are headers set after it; a \<open>Write\<close> before any \<open>WriteHeader\<close> sends
  200. \<open>http.Error\<close> sets the content type, writes the status and prints the message
  with a newline.
\<close>

record ResponseWriter =
  rw_header :: "string \<rightharpoonup> string"
  rw_status :: "nat option"
  rw_body :: string

definition Header_Set :: "ResponseWriter \<Rightarrow> string \<Rightarrow> string \<Rightarrow> ResponseWriter" where
  "Header_Set w h v = (if rw_status w = None then w\<lparr>rw_header := (rw_header w)(h \<mapsto> v)\<rparr> else w)"

definition WriteHeader :: "ResponseWriter \<Rightarrow> nat \<Rightarrow> ResponseWriter" where
  "WriteHeader w code = (if rw_status w = None then w\<lparr>rw_status := Some code\<rparr> else w)"

definition Write :: "ResponseWriter \<Rightarrow> string \<Rightarrow> ResponseWriter" where
  "Write w bs = (let w' = WriteHeader w 200 in w'\<lparr>rw_body := rw_body w' @ bs\<rparr>)"

definition http_Error :: "ResponseWriter \<Rightarrow> string \<Rightarrow> nat \<Rightarrow> ResponseWriter" where
  "http_Error w msg code =
     Write (WriteHeader
              (Header_Set (Header_Set w ''Content-Type'' ''text/plain; charset=utf-8'')
                 ''X-Content-Type-Options'' ''nosniff'')
              code)
       (msg @ [CHR 0x0A])"

definition StatusBadRequest :: nat where "StatusBadRequest = 400"
definition StatusNotFound :: nat where "StatusNotFound = 404"
definition StatusInternalServerError :: nat where "StatusInternalServerError = 500"

definition HasPrefix :: "string \<Rightarrow> string \<Rightarrow> bool" where
  "HasPrefix s pre = (take (length pre) s = pre)"

text \<open>\<open>strings.SplitN(s, "/", 2)\<close>: \<open>s\<close> cut at its first slash, or \<open>s\<close> alone.\<close>

fun cut_slash :: "string \<Rightarrow> (string \<times> string) option" where
  "cut_slash [] = None"
| "cut_slash (x # xs) =
     (if x = CHR ''/'' then Some ([], xs)
      else map_option (\<lambda>(a, b). (x # a, b)) (cut_slash xs))"

definition SplitN_slash_2 :: "string \<Rightarrow> string list" where
  "SplitN_slash_2 s = (case cut_slash s of None \<Rightarrow> [s] | Some (a, b) \<Rightarrow> [a, b])"

definition error_Error :: "error \<Rightarrow> string" where
  "error_Error e = (case e of Error msg \<Rightarrow> msg)"

text \<open>\<open>ServeHTTP\<close> on the path of the request, with the registry and the response
  writer. After the 404 for a group that is not registered the source has no
  \<open>return\<close>: the call of \<open>Get\<close> follows on the nil group.\<close>

definition HTTPPool_ServeHTTP ::
  "HTTPPool \<Rightarrow> registry \<Rightarrow> ResponseWriter \<Rightarrow> string \<Rightarrow> registry \<times> ResponseWriter \<times> unit outcome" where
  "HTTPPool_ServeHTTP p groups w path =
     (if \<not> HasPrefix path (basePath p) then (groups, w, Panicked)
      else
        (let parts = SplitN_slash_2 (drop (length (basePath p)) path)
         in case parts of
              [groupName, k] \<Rightarrow>
                (let group = GetGroup groups groupName;
                     w1 = (if group = None
                           then http_Error w (''No such group: '' @ groupName) StatusNotFound
                           else w)
                 in case Group_Get_ptr group k of
                      (group', Returned (view, Some e)) \<Rightarrow>
                        (groups(groupName := group'),
                         http_Error w1 (error_Error e) StatusInternalServerError, Returned ())
                    | (group', Returned (view, None)) \<Rightarrow>
                        (groups(groupName := group'),
                         Write (Header_Set w1 ''Content-Type'' ''application/octet-stream'')
                           (ByteView_ByteSlice view),
                         Returned ())
                    | (group', Panicked) \<Rightarrow> (groups(groupName := group'), w1, Panicked)
                    | (group', Hangs) \<Rightarrow> (groups(groupName := group'), w1, Hangs))
            | _ \<Rightarrow> (groups, http_Error w ''Bad Request'' StatusBadRequest, Returned ())))"

definition new_response :: ResponseWriter where
  "new_response = \<lparr>rw_header = Map.empty, rw_status = None, rw_body = []\<rparr>"


section \<open>Examples\<close>

text \<open>The demo of \<open>main.go\<close>: the map \<open>db\<close> and the loader of \<open>createGroup\<close>, which
  answers from \<open>db\<close> or fails with \<open>"<key> not exist"\<close>; the group \<open>scores\<close> with budget
  \<open>2<<10\<close>, as \<open>NewGroup\<close> builds it, with a given peer picker.\<close>

definition db :: "string \<rightharpoonup> string" where
  "db = [''Tom'' \<mapsto> ''630'', ''Jack'' \<mapsto> ''589'', ''Sam'' \<mapsto> ''567'']"

definition db_getter :: Getter where
  "db_getter k = (case db k of Some v \<Rightarrow> (v, None) | None \<Rightarrow> ([], Some (Error (k @ '' not exist''))))"

definition scores :: "PeerPicker option \<Rightarrow> Group" where
  "scores picker =
     \<lparr>name = ''scores'', getter = db_getter, mainCache = \<lparr>cacheBytes = 2048, lru = None\<rparr>,
      peers = picker, loader = \<lparr>calls = None\<rparr>\<rparr>"

text \<open>Peer clients and pickers for examples: a peer that answers \<open>630\<close>, a peer whose
  \<open>Get\<close> fails (the scenario S6 of the specification), and pickers that always choose
  them.\<close>

definition peer_ok :: PeerGetter where
  "peer_ok nm k = (''630'', None)"

definition peer_failing :: PeerGetter where
  "peer_failing nm k = ([], Some (Error ''server returned: 500 Internal Server Error''))"

definition pick_remote :: PeerPicker where
  "pick_remote k = (Some peer_ok, True)"

definition pick_failing :: PeerPicker where
  "pick_failing k = (Some peer_failing, True)"

text \<open>Whether the function literal of \<open>load\<close> reaches \<open>getLocally\<close>: there is no
  picker, or it picks no peer, or the peer's \<open>Get\<close> fails.\<close>

definition local_path :: "Group \<Rightarrow> string \<Rightarrow> bool" where
  "local_path g k =
     (case peers g of
        None \<Rightarrow> True
      | Some picker \<Rightarrow>
          (case picker k of
             (peer, False) \<Rightarrow> True
           | (None, True) \<Rightarrow> False
           | (Some p, True) \<Rightarrow> snd (p (name g) k) \<noteq> None))"

text \<open>For \<open>Do\<close>: a function that panics, one that returns \<open>"bar"\<close>, and a fresh
  \<open>singleflight.Group\<close>.\<close>

definition panicking_fn :: "unit \<Rightarrow> unit \<times> (string option \<times> error option) outcome" where
  "panicking_fn e = (e, Panicked)"

definition bar_fn :: "unit \<Rightarrow> unit \<times> (string option \<times> error option) outcome" where
  "bar_fn e = (e, Returned (Some ''bar'', None))"

definition sf0 :: "string singleflight_Group" where
  "sf0 = \<lparr>calls = None\<rparr>"

text \<open>A pool whose own address is the peer 4 of the example ring.\<close>

definition pool3 :: HTTPPool where
  "pool3 = \<lparr>self = ''4'', basePath = defaultBasePath, ring = Some ring3,
            httpGetters = [''6'' \<mapsto> \<lparr>baseURL = ''6'' @ defaultBasePath\<rparr>,
                           ''4'' \<mapsto> \<lparr>baseURL = ''4'' @ defaultBasePath\<rparr>,
                           ''2'' \<mapsto> \<lparr>baseURL = ''2'' @ defaultBasePath\<rparr>]\<rparr>"


section \<open>The LRU cache: list, map and counter\<close>

lemma sum_entries_of:
  "sum_list (map f (entries_of h l)) = (\<Sum>a\<leftarrow>l. case h a of Some kv \<Rightarrow> f kv | None \<Rightarrow> (0::int64))"
  by (induction l) (auto split: option.splits)

lemma entries_of_upd_notin:
  "a \<notin> set l \<Longrightarrow> entries_of (h(a \<mapsto> x)) l = entries_of h l"
  by (induction l) (auto split: option.splits)

lemma sum_entries_of_remove1:
  "a \<in> set l \<Longrightarrow> h a = Some kv \<Longrightarrow>
   sum_list (map f (entries_of h l)) = f kv + sum_list (map f (entries_of h (remove1 a l)) :: int64 list)"
  by (induction l) (auto split: option.splits)

lemma lru_inv_New: "lru_inv (lru_New B cb)"
  by (simp add: lru_inv_def lru_New_def)

lemma total_New: "total_bytes Len (lru_New B cb) = 0"
  by (simp add: total_bytes_def entries_def lru_New_def)

lemma lru_inv_cacheD:
  "lru_inv c \<Longrightarrow> cache c k = Some a \<Longrightarrow> a \<in> set (ll c) \<and> (\<exists>kv. elems c a = Some kv \<and> key kv = k)"
  unfolding lru_inv_def by blast

lemma lru_inv_llD:
  "lru_inv c \<Longrightarrow> a \<in> set (ll c) \<Longrightarrow>
     a < nextElem c \<and> (\<exists>kv. elems c a = Some kv \<and> cache c (key kv) = Some a)"
  unfolding lru_inv_def by blast

lemma lru_inv_distinct: "lru_inv c \<Longrightarrow> distinct (ll c)"
  unfolding lru_inv_def by blast

lemma lru_inv_MoveToFront:
  assumes "lru_inv c"
  shows "lru_inv (c\<lparr>ll := MoveToFront ele (ll c)\<rparr>)"
proof -
  have "set (MoveToFront ele (ll c)) = set (ll c)" "distinct (MoveToFront ele (ll c))"
    using lru_inv_distinct[OF assms] by (auto simp: MoveToFront_def)
  then show ?thesis using assms by (simp add: lru_inv_def)
qed

lemma total_MoveToFront:
  assumes "elems c ele = Some kv"
  shows "total_bytes Len (c\<lparr>ll := MoveToFront ele (ll c)\<rparr>) = total_bytes Len c"
proof (cases "ele \<in> set (ll c)")
  case True
  from sum_entries_of_remove1[where h="elems c" and f="entry_bytes Len", OF True assms] assms True
  show ?thesis by (simp add: total_bytes_def entries_def MoveToFront_def)
next
  case False
  then show ?thesis by (simp add: MoveToFront_def)
qed

lemma Cache_Get_inv:
  assumes "lru_inv c"
  shows "\<exists>c' r. Cache_Get c k = Some (c', r) \<and> lru_inv c' \<and> nbytes c' = nbytes c \<and> maxBytes c' = maxBytes c
     \<and> total_bytes Len c' = total_bytes Len c \<and> elems c' = elems c \<and> cache c' = cache c"
proof (cases "cache c k")
  case None
  then show ?thesis using assms by (simp add: Cache_Get_def)
next
  case (Some ele)
  with lru_inv_cacheD[OF assms Some] obtain kv where kv: "elems c ele = Some kv" "ele \<in> set (ll c)"
    by auto
  show ?thesis using Some kv lru_inv_MoveToFront[OF assms, of ele] total_MoveToFront[OF kv(1), of Len]
    by (simp add: Cache_Get_def)
qed

lemma Cache_RemoveOldest_inv:
  assumes "lru_inv c" "nbytes c = total_bytes Len c"
  shows "\<exists>c'. Cache_RemoveOldest Len c = Some c' \<and> lru_inv c' \<and> nbytes c' = total_bytes Len c'
     \<and> maxBytes c' = maxBytes c \<and> ll c' = butlast (ll c)"
proof (cases "ll c = []")
  case True
  then show ?thesis using assms by (simp add: Cache_RemoveOldest_def Back_def)
next
  case False
  define ele where "ele = last (ll c)"
  have mem: "ele \<in> set (ll c)" using False by (simp add: ele_def)
  from lru_inv_llD[OF assms(1) mem] obtain kv where
    kv: "elems c ele = Some kv" "cache c (key kv) = Some ele" by auto
  have rm: "remove1 ele (ll c) = butlast (ll c)"
    using False lru_inv_distinct[OF assms(1)] unfolding ele_def
    by (metis append_butlast_last_id distinct_append remove1_append remove1.simps not_distinct_conv_prefix
         append_Nil2 distinct.simps(2) in_set_conv_decomp)
  define c' where "c' = c\<lparr>ll := Remove ele (ll c),
                       cache := (cache c)(key kv := None),
                       nbytes := nbytes c - (of_nat (length (key kv)) + Len (value kv)),
                       evicted := (if OnEvicted c then evicted c @ [(key kv, value kv)]
                                   else evicted c)\<rparr>"
  have R: "Cache_RemoveOldest Len c = Some c'"
    using False kv by (simp add: Cache_RemoveOldest_def Back_def ele_def c'_def)
  have d: "distinct (ll c)" by (rule lru_inv_distinct[OF assms(1)])
  have inv': "lru_inv c'"
    unfolding lru_inv_def
  proof (intro conjI ballI allI impI)
    show "distinct (ll c')" using d by (simp add: c'_def Remove_def)
  next
    fix a assume "a \<in> set (ll c')"
    then have a: "a \<in> set (ll c)" "a \<noteq> ele" using d by (auto simp: c'_def Remove_def)
    from lru_inv_llD[OF assms(1) a(1)] obtain kv' where
      kv': "a < nextElem c" "elems c a = Some kv'" "cache c (key kv') = Some a" by auto
    have "key kv' \<noteq> key kv" using kv kv' a by auto
    then show "a < nextElem c'" "\<exists>kv. elems c' a = Some kv \<and> cache c' (key kv) = Some a"
      using kv' by (auto simp: c'_def)
  next
    fix k a assume "cache c' k = Some a"
    then have k: "k \<noteq> key kv" "cache c k = Some a" by (auto simp: c'_def split: if_splits)
    from lru_inv_cacheD[OF assms(1) k(2)] obtain kv' where
      kv': "a \<in> set (ll c)" "elems c a = Some kv'" "key kv' = k" by auto
    have "a \<noteq> ele" using kv kv' k by auto
    then show "a \<in> set (ll c')" "\<exists>kv. elems c' a = Some kv \<and> key kv = k"
      using kv' d by (auto simp: c'_def Remove_def)
  qed
  have "nbytes c' = total_bytes Len c'"
    using sum_entries_of_remove1[where h="elems c" and f="entry_bytes Len", OF mem kv(1)] assms(2)
    by (simp add: c'_def total_bytes_def entries_def Remove_def entry_bytes_def)
  then show ?thesis using R inv' rm by (auto simp: c'_def Remove_def)
qed


lemma Cache_RemoveOldest_nonempty:
  assumes "lru_inv c" "ll c \<noteq> []"
  shows "\<exists>kv. elems c (last (ll c)) = Some kv \<and> cache c (key kv) = Some (last (ll c)) \<and>
     Cache_RemoveOldest Len c = Some (c\<lparr>ll := butlast (ll c),
                       cache := (cache c)(key kv := None),
                       nbytes := nbytes c - (of_nat (length (key kv)) + Len (value kv)),
                       evicted := (if OnEvicted c then evicted c @ [(key kv, value kv)]
                                   else evicted c)\<rparr>)"
proof -
  have mem: "last (ll c) \<in> set (ll c)" using assms(2) by simp
  from lru_inv_llD[OF assms(1) mem] obtain kv where
    kv: "elems c (last (ll c)) = Some kv" "cache c (key kv) = Some (last (ll c))" by auto
  have rm: "remove1 (last (ll c)) (ll c) = butlast (ll c)"
    using assms(2) lru_inv_distinct[OF assms(1)]
    by (metis append_butlast_last_id distinct_append remove1_append remove1.simps not_distinct_conv_prefix
         append_Nil2)
  show ?thesis using kv rm assms(2) by (simp add: Cache_RemoveOldest_def Back_def Remove_def)
qed

lemma insert_entry_inv:
  assumes "lru_inv c" "nbytes c = total_bytes Len c"
  shows "\<exists>c1 a. insert_entry Len c k v = Some c1 \<and> lru_inv c1 \<and> nbytes c1 = total_bytes Len c1
     \<and> maxBytes c1 = maxBytes c \<and> OnEvicted c1 = OnEvicted c \<and> evicted c1 = evicted c
     \<and> ll c1 = a # remove1 a (ll c) \<and> elems c1 a = Some \<lparr>key = k, value = v\<rparr> \<and> cache c1 k = Some a
     \<and> (\<forall>b. b \<noteq> a \<longrightarrow> elems c1 b = elems c b)"
proof (cases "cache c k")
  case None
  define a where "a = nextElem c"
  define c1 where "c1 = c\<lparr>ll := PushFront a (ll c),
                   elems := (elems c)(a \<mapsto> \<lparr>key = k, value = v\<rparr>),
                   cache := (cache c)(k \<mapsto> a),
                   nbytes := nbytes c + (of_nat (length k) + Len v),
                   nextElem := Suc a\<rparr>"
  have R: "insert_entry Len c k v = Some c1"
    using None by (simp add: insert_entry_def c1_def a_def Let_def)
  have fresh: "a \<notin> set (ll c)" using lru_inv_llD[OF assms(1), of a] by (auto simp: a_def)
  have inv': "lru_inv c1"
    unfolding lru_inv_def
  proof (intro conjI ballI allI impI)
    show "distinct (ll c1)" using fresh lru_inv_distinct[OF assms(1)] by (simp add: c1_def PushFront_def)
  next
    fix b assume b: "b \<in> set (ll c1)"
    show "b < nextElem c1" using b lru_inv_llD[OF assms(1), of b] by (auto simp: c1_def PushFront_def a_def)
    show "\<exists>kv. elems c1 b = Some kv \<and> cache c1 (key kv) = Some b"
    proof (cases "b = a")
      case True then show ?thesis by (simp add: c1_def)
    next
      case False
      then have "b \<in> set (ll c)" using b by (simp add: c1_def PushFront_def)
      from lru_inv_llD[OF assms(1) this] obtain kv where
        kv: "elems c b = Some kv" "cache c (key kv) = Some b" by auto
      then have "key kv \<noteq> k" using None by auto
      then show ?thesis using kv False by (simp add: c1_def)
    qed
  next
    fix k' b assume kb: "cache c1 k' = Some b"
    show "b \<in> set (ll c1)" using kb lru_inv_cacheD[OF assms(1), of k' b]
      by (auto simp: c1_def PushFront_def split: if_splits)
    show "\<exists>kv. elems c1 b = Some kv \<and> key kv = k'"
    proof (cases "k' = k")
      case True then show ?thesis using kb by (simp add: c1_def)
    next
      case False
      then have cb: "cache c k' = Some b" using kb by (simp add: c1_def)
      from lru_inv_cacheD[OF assms(1) cb] have "b \<in> set (ll c)" "\<exists>kv. elems c b = Some kv \<and> key kv = k'"
        by auto
      then show ?thesis using fresh by (auto simp: c1_def)
    qed
  qed
  have tot: "nbytes c1 = total_bytes Len c1"
    using assms(2) fresh
    by (simp add: c1_def total_bytes_def entries_def PushFront_def entries_of_upd_notin entry_bytes_def)
  have "remove1 a (ll c) = ll c" using fresh by (simp add: remove1_idem)
  then show ?thesis using R inv' tot by (auto simp: c1_def PushFront_def)
next
  case (Some a)
  from lru_inv_cacheD[OF assms(1) Some] obtain kv where
    kv: "a \<in> set (ll c)" "elems c a = Some kv" "key kv = k" by auto
  define c1 where "c1 = c\<lparr>ll := MoveToFront a (ll c),
                       nbytes := nbytes c + (Len v - Len (value kv)),
                       elems := (elems c)(a \<mapsto> kv\<lparr>value := v\<rparr>)\<rparr>"
  have R: "insert_entry Len c k v = Some c1"
    using Some kv by (simp add: insert_entry_def c1_def)
  have d: "distinct (ll c)" by (rule lru_inv_distinct[OF assms(1)])
  have ll1: "ll c1 = a # remove1 a (ll c)" using kv by (simp add: c1_def MoveToFront_def)
  have sl: "set (ll c1) = set (ll c)" using d kv(1) by (auto simp: ll1)
  have inv': "lru_inv c1"
    unfolding lru_inv_def
  proof (intro conjI ballI allI impI)
    show "distinct (ll c1)" using d kv by (simp add: ll1)
  next
    fix b assume b: "b \<in> set (ll c1)"
    then have bm: "b \<in> set (ll c)" by (simp add: sl)
    show "b < nextElem c1" using lru_inv_llD[OF assms(1) bm] by (simp add: c1_def)
    show "\<exists>kv. elems c1 b = Some kv \<and> cache c1 (key kv) = Some b"
      using lru_inv_llD[OF assms(1) bm] kv Some by (auto simp: c1_def)
  next
    fix k' b assume kb: "cache c1 k' = Some b"
    then have cb: "cache c k' = Some b" by (simp add: c1_def)
    show "b \<in> set (ll c1)" using lru_inv_cacheD[OF assms(1) cb] by (simp add: sl)
    show "\<exists>kv. elems c1 b = Some kv \<and> key kv = k'"
      using lru_inv_cacheD[OF assms(1) cb] kv Some cb by (auto simp: c1_def)
  qed
  have nin: "a \<notin> set (remove1 a (ll c))" using d by simp
  have tot: "nbytes c1 = total_bytes Len c1"
    using sum_entries_of_remove1[where h="elems c" and f="entry_bytes Len", OF kv(1) kv(2)] assms(2) nin
    by (simp add: c1_def total_bytes_def entries_def MoveToFront_def kv(1) entries_of_upd_notin entry_bytes_def)
  have "kv\<lparr>value := v\<rparr> = \<lparr>key = k, value = v\<rparr>" using kv(3) by (cases kv) simp
  then show ?thesis using R inv' tot ll1 Some by (auto simp: c1_def)
qed


lemma evict_stop: "\<not> (maxBytes c \<noteq> 0 \<and> maxBytes c <s nbytes c) \<Longrightarrow> evict Len c = Some c"
  by (subst evict.simps) auto

lemma evict_go:
  "maxBytes c \<noteq> 0 \<Longrightarrow> maxBytes c <s nbytes c \<Longrightarrow>
     evict Len c = Option.bind (Cache_RemoveOldest Len c) (evict Len)"
  by (subst evict.simps) simp

lemma evict_terminates:
  assumes "lru_inv c" "nbytes c = total_bytes Len c" "0 \<le>s maxBytes c"
  shows "\<exists>c'. evict Len c = Some c'"
  using assms
proof (induction "length (ll c)" arbitrary: c)
  case 0
  then have "nbytes c = 0" by (simp add: total_bytes_def entries_def)
  then have "\<not> (maxBytes c \<noteq> 0 \<and> maxBytes c <s nbytes c)"
    using 0(4) by (auto simp: word_sless_alt word_sle_eq)
  then show ?case by (simp add: evict_stop)
next
  case (Suc n)
  show ?case
  proof (cases "maxBytes c \<noteq> 0 \<and> maxBytes c <s nbytes c")
    case False
    then show ?thesis by (simp add: evict_stop)
  next
    case True
    from Cache_RemoveOldest_inv[OF Suc(3) Suc(4)] obtain c1 where
      c1: "Cache_RemoveOldest Len c = Some c1" "lru_inv c1" "nbytes c1 = total_bytes Len c1"
          "maxBytes c1 = maxBytes c" "ll c1 = butlast (ll c)" by blast
    have "n = length (ll c1)" using Suc(2) c1(5) by simp
    from Suc(1)[OF this c1(2) c1(3)] Suc(5) c1(4) obtain c' where "evict Len c1 = Some c'" by auto
    then show ?thesis using True c1(1) by (simp add: evict_go)
  qed
qed

lemma evict_post_aux:
  assumes "evict Len c = Some c'"
  shows "evict_spec Len c c'"
proof (rule evict.raw_induct[where P = evict_spec, OF _ assms])
  fix ev :: "('a \<Rightarrow> int64) \<Rightarrow> 'a Cache \<Rightarrow> 'a Cache option" and Len c c'
  assume IH: "\<And>Len c c'. ev Len c = Some c' \<Longrightarrow> evict_spec Len c c'"
    and body: "(if maxBytes c \<noteq> 0 \<and> maxBytes c <s nbytes c
      then Option.bind (Cache_RemoveOldest Len c) (ev Len) else Some c) = Some c'"
  show "evict_spec Len c c'"
    unfolding evict_spec_def
  proof (intro impI, elim conjE)
    assume inv: "lru_inv c" and nb: "nbytes c = total_bytes Len c"
    show "lru_inv c' \<and> nbytes c' = total_bytes Len c' \<and> maxBytes c' = maxBytes c \<and>
     \<not> (maxBytes c' \<noteq> 0 \<and> maxBytes c' <s nbytes c') \<and>
     elems c' = elems c \<and> OnEvicted c' = OnEvicted c \<and>
     (\<exists>n. ll c' = take n (ll c))"
    proof (cases "maxBytes c \<noteq> 0 \<and> maxBytes c <s nbytes c")
      case False
      then have "c' = c" using body by (auto split: if_splits)
      then show ?thesis using inv nb False by (auto intro: exI[of _ "length (ll c)"])
    next
      case True
      from Cache_RemoveOldest_inv[OF inv nb] obtain c1 where
        c1: "Cache_RemoveOldest Len c = Some c1" "lru_inv c1" "nbytes c1 = total_bytes Len c1"
            "maxBytes c1 = maxBytes c" "ll c1 = butlast (ll c)" by blast
      have e1: "elems c1 = elems c" "OnEvicted c1 = OnEvicted c"
        using c1(1) by (auto simp: Cache_RemoveOldest_def split: option.splits)
      have "ev Len c1 = Some c'" using body True c1(1) by simp
      from IH[OF this] c1(2,3) have
        IH': "lru_inv c' \<and> nbytes c' = total_bytes Len c' \<and> maxBytes c' = maxBytes c1 \<and>
         \<not> (maxBytes c' \<noteq> 0 \<and> maxBytes c' <s nbytes c') \<and> elems c' = elems c1 \<and> OnEvicted c' = OnEvicted c1 \<and>
         (\<exists>n. ll c' = take n (ll c1))" unfolding evict_spec_def by blast
      then obtain n where "ll c' = take n (butlast (ll c))" using c1(5) by auto
      then have "ll c' = take (min n (length (ll c) - 1)) (ll c)"
        by (simp add: butlast_conv_take min.commute)
      then show ?thesis using IH' c1(4) e1 by auto
    qed
  qed
qed

lemma evict_post:
  "evict Len c = Some c' \<Longrightarrow> lru_inv c \<Longrightarrow> nbytes c = total_bytes Len c \<Longrightarrow>
     lru_inv c' \<and> nbytes c' = total_bytes Len c' \<and> maxBytes c' = maxBytes c \<and>
     \<not> (maxBytes c' \<noteq> 0 \<and> maxBytes c' <s nbytes c') \<and>
     elems c' = elems c \<and> OnEvicted c' = OnEvicted c \<and>
     (\<exists>n. ll c' = take n (ll c))"
  using evict_post_aux[of Len c c'] unfolding evict_spec_def by blast

lemma Cache_Add_post:
  assumes "Cache_Add Len c k v = Some c'" "lru_ok Len c"
  shows "lru_ok Len c' \<and> maxBytes c' = maxBytes c \<and> (0 <s maxBytes c \<longrightarrow> nbytes c' \<le>s maxBytes c)"
proof -
  from assms(2) have a: "lru_inv c" "nbytes c = total_bytes Len c" by (auto simp: lru_ok_def)
  from insert_entry_inv[OF a, of k v] obtain c1 where
    c1: "insert_entry Len c k v = Some c1" "lru_inv c1" "nbytes c1 = total_bytes Len c1"
     "maxBytes c1 = maxBytes c" by blast
  then have "evict Len c1 = Some c'" using assms(1) by (simp add: Cache_Add_def)
  from evict_post[OF this c1(2) c1(3)] c1(4) show ?thesis
    by (auto simp: lru_ok_def word_sless_alt word_sle_eq)
qed

lemma Cache_Add_terminates:
  assumes "lru_ok Len c" "0 \<le>s maxBytes c"
  shows "\<exists>c'. Cache_Add Len c k v = Some c'"
proof -
  from assms(1) have a: "lru_inv c" "nbytes c = total_bytes Len c" by (auto simp: lru_ok_def)
  from insert_entry_inv[OF a, of k v] obtain c1 where
    c1: "insert_entry Len c k v = Some c1" "lru_inv c1" "nbytes c1 = total_bytes Len c1"
     "maxBytes c1 = maxBytes c" by blast
  from evict_terminates[OF c1(2) c1(3)] assms(2) c1(4) c1(1) show ?thesis
    by (simp add: Cache_Add_def)
qed

lemma lru_step_good:
  assumes "lru_step Len c x = Some c'" "lru_good Len c"
  shows "lru_good Len c' \<and> maxBytes c' = maxBytes c"
proof (cases x)
  case (OpGet k)
  from assms(2) have "lru_inv c" by (simp add: lru_good_def lru_ok_def)
  from Cache_Get_inv[OF this, of k Len] assms show ?thesis
    by (auto simp: OpGet lru_good_def lru_ok_def)
next
  case (OpAdd k v)
  then show ?thesis using Cache_Add_post[of Len c k v c'] assms by (auto simp: lru_good_def)
qed

lemma lru_step_terminates:
  assumes "lru_good Len c" "0 \<le>s maxBytes c"
  shows "\<exists>c'. lru_step Len c x = Some c'"
proof (cases x)
  case (OpGet k)
  from assms(1) have "lru_inv c" by (simp add: lru_good_def lru_ok_def)
  from Cache_Get_inv[OF this, of k Len] show ?thesis by (auto simp: OpGet)
next
  case (OpAdd k v)
  then show ?thesis using Cache_Add_terminates[of Len c k v] assms by (auto simp: lru_good_def)
qed

lemma lru_run_good:
  "lru_run Len c xs = Some c' \<Longrightarrow> lru_good Len c \<Longrightarrow> lru_good Len c' \<and> maxBytes c' = maxBytes c"
proof (induction xs arbitrary: c)
  case Nil
  then show ?case by simp
next
  case (Cons x xs)
  then obtain c1 where c1: "lru_step Len c x = Some c1" "lru_run Len c1 xs = Some c'"
    by (auto simp: bind_eq_Some_conv)
  from lru_step_good[OF c1(1) Cons(3)] Cons(1)[OF c1(2)] show ?case by simp
qed

lemma lru_run_terminates:
  "lru_good Len c \<Longrightarrow> 0 \<le>s maxBytes c \<Longrightarrow> \<exists>c'. lru_run Len c xs = Some c'"
proof (induction xs arbitrary: c)
  case Nil
  then show ?case by simp
next
  case (Cons x xs)
  from lru_step_terminates[OF Cons(2,3), of x] obtain c1 where c1: "lru_step Len c x = Some c1" by blast
  from lru_step_good[OF c1 Cons(2)] Cons(1)[of c1] Cons(3) c1 show ?case by auto
qed

lemma lru_good_New: "lru_good Len (lru_New B cb)"
  using lru_inv_New[of B cb] total_New[of Len B cb]
  by (auto simp: lru_good_def lru_ok_def lru_New_def word_sless_alt word_sle_eq)

lemma sint_word_of_int64:
  "- (2 ^ 63) \<le> x \<Longrightarrow> x < 2 ^ 63 \<Longrightarrow> sint (word_of_int x :: int64) = x"
  by (simp add: signed_of_int signed_take_bit_int_eq_self)

lemma entry_bytes_of_int: "entry_bytes Len kv = word_of_int (entry_size Len kv)"
  by (simp add: entry_bytes_def entry_size_def)

lemma sum_entry_bytes_of_int:
  "sum_list (map (entry_bytes Len) es) = word_of_int (sum_list (map (entry_size Len) es))"
  by (induction es) (simp_all add: entry_bytes_of_int)

lemma entry_size_ge: "- (2 ^ 63) \<le> entry_size Len kv"
proof -
  have "- (2 ^ 63) \<le> sint (Len (value kv))" using sint_ge[of "Len (value kv)"] by simp
  then show ?thesis by (simp add: entry_size_def)
qed

lemma sum_map_nonneg: "\<forall>x \<in> set xs. (0::int) \<le> f x \<Longrightarrow> 0 \<le> sum_list (map f xs)"
  by (induction xs) auto

lemma sum_nonneg_member_le:
  "\<forall>x \<in> set xs. (0::int) \<le> f x \<Longrightarrow> y \<in> set xs \<Longrightarrow> f y \<le> sum_list (map f xs)"
proof (induction xs)
  case Nil
  then show ?case by simp
next
  case (Cons x xs)
  have "0 \<le> sum_list (map f xs)" using Cons(2) by (simp add: sum_map_nonneg)
  moreover have "0 \<le> f x" using Cons(2) by simp
  ultimately show ?case using Cons by auto
qed

lemma sint_total_bytes:
  assumes "\<forall>kv \<in> set (entries c). 0 \<le> entry_size Len kv" "total_size Len c < 2 ^ 63"
  shows "sint (total_bytes Len c) = total_size Len c"
proof -
  have "0 \<le> total_size Len c" using assms(1) by (simp add: total_size_def sum_map_nonneg)
  then show ?thesis using assms(2)
    by (simp add: total_bytes_def total_size_def sum_entry_bytes_of_int sint_word_of_int64)
qed

lemma entries_of_map:
  "\<forall>a \<in> set l. h a \<noteq> None \<Longrightarrow> entries_of h l = map (\<lambda>a. the (h a)) l"
  by (induction l) auto

lemma entries_map: "lru_inv c \<Longrightarrow> entries c = map (\<lambda>a. the (elems c a)) (ll c)"
  unfolding entries_def by (rule entries_of_map) (auto dest: lru_inv_llD)


lemma Cache_RemoveOldest_step:
  assumes "lru_inv c" "nbytes c = total_bytes Len c" "ll c \<noteq> []"
  shows "\<exists>c1 kv. Cache_RemoveOldest Len c = Some c1 \<and> lru_inv c1 \<and> nbytes c1 = total_bytes Len c1 \<and>
      maxBytes c1 = maxBytes c \<and> OnEvicted c1 = OnEvicted c \<and> elems c1 = elems c \<and>
      ll c1 = butlast (ll c) \<and> entries c1 = butlast (entries c) \<and> kv = last (entries c) \<and>
      cache c1 = (cache c)(key kv := None) \<and>
      evicted c1 = (if OnEvicted c then evicted c @ [(key kv, value kv)] else evicted c)"
proof -
  from Cache_RemoveOldest_inv[OF assms(1,2)] obtain c1 where
    c1: "Cache_RemoveOldest Len c = Some c1" "lru_inv c1" "nbytes c1 = total_bytes Len c1"
        "maxBytes c1 = maxBytes c" "ll c1 = butlast (ll c)" by blast
  from Cache_RemoveOldest_nonempty[OF assms(1,3), of Len] c1(1) obtain kv where
    kv: "elems c (last (ll c)) = Some kv"
        "c1 = c\<lparr>ll := butlast (ll c), cache := (cache c)(key kv := None),
                nbytes := nbytes c - (of_nat (length (key kv)) + Len (value kv)),
                evicted := (if OnEvicted c then evicted c @ [(key kv, value kv)] else evicted c)\<rparr>"
    by auto
  have el: "elems c1 = elems c" by (simp add: kv(2))
  have "entries c1 = map (\<lambda>a. the (elems c a)) (butlast (ll c))"
    using entries_map[OF c1(2)] c1(5) el by simp
  then have e1: "entries c1 = butlast (entries c)"
    using entries_map[OF assms(1)] by (simp add: map_butlast)
  have "last (entries c) = kv"
    using entries_map[OF assms(1)] assms(3) kv(1) by (simp add: last_map)
  then show ?thesis using c1 e1 el by (auto simp: kv(2))
qed

lemma evict_oversized:
  assumes "ll c = a # rest" "lru_inv c" "nbytes c = total_bytes Len c"
    "elems c a = Some kv0" "0 <s maxBytes c" "sint (maxBytes c) < entry_size Len kv0"
    "\<forall>kv \<in> set (entries c). 0 \<le> entry_size Len kv" "total_size Len c < 2 ^ 63"
  shows "\<exists>c'. evict Len c = Some c' \<and> ll c' = [] \<and> lru_inv c' \<and> nbytes c' = 0 \<and>
     evicted c' = evicted c @ (if OnEvicted c then map (\<lambda>kv. (key kv, value kv)) (rev (entries c)) else [])"
  using assms
proof (induction rest arbitrary: c rule: rev_induct)
  case Nil
  have ne: "ll c \<noteq> []" using Nil(1) by simp
  have es: "entries c = [kv0]" using Nil(1,4) by (simp add: entries_def)
  have "sint (nbytes c) = total_size Len c" using sint_total_bytes[OF Nil(7,8)] Nil(3) by simp
  then have "sint (nbytes c) = entry_size Len kv0" by (simp add: total_size_def es)
  then have go: "maxBytes c \<noteq> 0" "maxBytes c <s nbytes c"
    using Nil(5,6) by (auto simp: word_sless_alt)
  from Cache_RemoveOldest_step[OF Nil(2,3) ne] obtain c1 kv where
    c1: "Cache_RemoveOldest Len c = Some c1" "lru_inv c1" "nbytes c1 = total_bytes Len c1"
      "maxBytes c1 = maxBytes c" "ll c1 = butlast (ll c)" "entries c1 = butlast (entries c)"
      "kv = last (entries c)"
      "evicted c1 = (if OnEvicted c then evicted c @ [(key kv, value kv)] else evicted c)"
    by blast
  have "nbytes c1 = 0" using c1(3,6) es by (simp add: total_bytes_def)
  then have "\<not> (maxBytes c1 \<noteq> 0 \<and> maxBytes c1 <s nbytes c1)"
    using Nil(5) c1(4) by (auto simp: word_sless_alt)
  then have "evict Len c1 = Some c1" by (rule evict_stop)
  then have "evict Len c = Some c1" using go c1(1) by (simp add: evict_go)
  moreover have "ll c1 = []" using c1(5) Nil(1) by simp
  ultimately show ?case using c1 es \<open>nbytes c1 = 0\<close> by auto
next
  case (snoc x xs)
  have ne: "ll c \<noteq> []" using snoc(2) by simp
  have em: "entries c = map (\<lambda>a. the (elems c a)) (ll c)" by (rule entries_map[OF snoc(3)])
  have kv0: "kv0 \<in> set (entries c)" using em snoc(2,5) by simp
  have "sint (nbytes c) = total_size Len c" using sint_total_bytes[OF snoc(8,9)] snoc(4) by simp
  moreover have "entry_size Len kv0 \<le> total_size Len c"
    unfolding total_size_def by (rule sum_nonneg_member_le[OF snoc(8) kv0])
  ultimately have go: "maxBytes c \<noteq> 0" "maxBytes c <s nbytes c"
    using snoc(6,7) by (auto simp: word_sless_alt)
  from Cache_RemoveOldest_step[OF snoc(3,4) ne] obtain c1 kv where
    c1: "Cache_RemoveOldest Len c = Some c1" "lru_inv c1" "nbytes c1 = total_bytes Len c1"
      "maxBytes c1 = maxBytes c" "OnEvicted c1 = OnEvicted c" "elems c1 = elems c"
      "ll c1 = butlast (ll c)" "entries c1 = butlast (entries c)"
      "kv = last (entries c)"
      "evicted c1 = (if OnEvicted c then evicted c @ [(key kv, value kv)] else evicted c)"
    by blast
  have l1: "ll c1 = a # xs" using c1(7) snoc(2) by (simp add: butlast_append)
  have ene: "entries c \<noteq> []" using em ne by simp
  have sub: "set (entries c1) \<subseteq> set (entries c)" using c1(8) by (auto dest: in_set_butlastD)
  have nn1: "\<forall>kv \<in> set (entries c1). 0 \<le> entry_size Len kv" using snoc(8) sub by auto
  have "0 \<le> entry_size Len (last (entries c))" using snoc(8) ene by simp
  moreover have "total_size Len c = total_size Len c1 + entry_size Len (last (entries c))"
  proof -
    have "entries c = entries c1 @ [last (entries c)]" using ene c1(8) by simp
    then have "map (entry_size Len) (entries c) = map (entry_size Len) (entries c1) @ [entry_size Len (last (entries c))]"
      by (metis list.simps(8,9) map_append)
    then show ?thesis by (simp add: total_size_def)
  qed
  ultimately have b1: "total_size Len c1 < 2 ^ 63" using snoc(9) by simp
  from snoc(1)[OF l1 c1(2,3)] snoc(5,6,7) c1(4,6) nn1 b1 obtain c' where
    c': "evict Len c1 = Some c'" "ll c' = []" "lru_inv c'" "nbytes c' = 0"
      "evicted c' = evicted c1 @ (if OnEvicted c1 then map (\<lambda>kv. (key kv, value kv)) (rev (entries c1)) else [])"
    by auto
  have "evict Len c = Some c'" using go c1(1) c'(1) by (simp add: evict_go)
  moreover have "evicted c' = evicted c @ (if OnEvicted c then map (\<lambda>kv. (key kv, value kv)) (rev (entries c)) else [])"
  proof (cases "OnEvicted c")
    case True
    define f where "f = (\<lambda>kv::'a entry. (key kv, value kv))"
    have "map f (rev (butlast (entries c) @ [last (entries c)])) =
          f (last (entries c)) # map f (rev (butlast (entries c)))" by simp
    then have R: "map f (rev (entries c)) = f (last (entries c)) # map f (rev (butlast (entries c)))"
      using ene by simp
    have "evicted c' = (evicted c @ [f kv]) @ map f (rev (entries c1))"
      using True c'(5) c1(5,10) by (simp add: f_def)
    also have "\<dots> = evicted c @ map f (rev (entries c))"
      unfolding R c1(8) c1(9) by simp
    finally show ?thesis using True by (simp add: f_def)
  next
    case False
    then show ?thesis using c'(5) c1(5,10) by simp
  qed
  ultimately show ?case using c' by auto
qed


lemma lru_run_reach:
  assumes "lru_run Len (lru_New B cb) ops = Some c"
  shows "lru_inv c" "nbytes c = total_bytes Len c" "maxBytes c = B" "OnEvicted c = cb"
proof -
  from lru_run_good[OF assms lru_good_New] show "lru_inv c" "nbytes c = total_bytes Len c" "maxBytes c = B"
    by (simp_all add: lru_good_def lru_ok_def lru_New_def)
  have "\<And>c c'. lru_run Len c ops = Some c' \<Longrightarrow> lru_good Len c \<Longrightarrow> OnEvicted c' = OnEvicted c"
  proof (induction ops)
    case Nil
    then show ?case by simp
  next
    case (Cons x xs)
    from Cons(2) obtain c1 where c1: "lru_step Len c x = Some c1" "lru_run Len c1 xs = Some c'"
      by (auto simp: bind_eq_Some_conv)
    have g: "lru_inv c" "nbytes c = total_bytes Len c" using Cons(3) by (auto simp: lru_good_def lru_ok_def)
    have "OnEvicted c1 = OnEvicted c"
    proof (cases x)
      case (OpGet k)
      then show ?thesis using c1(1) by (auto simp: Cache_Get_def split: option.splits)
    next
      case (OpAdd k v)
      from insert_entry_inv[OF g, of k v] obtain c0 where
        c0: "insert_entry Len c k v = Some c0" "lru_inv c0" "nbytes c0 = total_bytes Len c0"
            "OnEvicted c0 = OnEvicted c" by blast
      then have "evict Len c0 = Some c1" using c1(1) OpAdd by (simp add: Cache_Add_def)
      from evict_post[OF this c0(2,3)] c0(4) show ?thesis by simp
    qed
    moreover have "lru_good Len c1" using lru_step_good[OF c1(1) Cons(3)] by simp
    ultimately show ?case using Cons(1)[OF c1(2)] by simp
  qed
  from this[OF assms lru_good_New] show "OnEvicted c = cb" by (simp add: lru_New_def)
qed

lemma lru_inv_empty: "lru_inv c \<Longrightarrow> ll c = [] \<Longrightarrow> cache c = Map.empty"
proof (rule ext)
  fix k assume "lru_inv c" "ll c = []"
  then show "cache c k = None" using lru_inv_cacheD[of c k] by (cases "cache c k") auto
qed

lemma lru_inv_dom: 
  assumes "lru_inv c" shows "dom (cache c) = key ` set (entries c)"
proof (intro set_eqI iffI)
  fix k assume "k \<in> dom (cache c)"
  then obtain a where a: "cache c k = Some a" by auto
  from lru_inv_cacheD[OF assms a] obtain kv where "a \<in> set (ll c)" "elems c a = Some kv" "key kv = k" by auto
  then show "k \<in> key ` set (entries c)" using entries_map[OF assms] by force
next
  fix k assume "k \<in> key ` set (entries c)"
  then obtain a where a: "a \<in> set (ll c)" "k = key (the (elems c a))"
    using entries_map[OF assms] by auto
  from lru_inv_llD[OF assms a(1)] a(2) show "k \<in> dom (cache c)" by auto
qed

lemma remove1_filter_key:
  assumes "distinct l" "\<forall>b \<in> set l. (f b = k) = (b = a)"
  shows "map g (remove1 a l) = map g (filter (\<lambda>b. f b \<noteq> k) l)"
  using assms
proof (induction l)
  case Nil
  then show ?case by simp
next
  case (Cons x xs)
  show ?case
  proof (cases "x = a")
    case True
    then have "a \<notin> set xs" using Cons(2) by simp
    then have "\<forall>b \<in> set xs. f b \<noteq> k" using Cons(3) by auto
    then have "filter (\<lambda>b. f b \<noteq> k) xs = xs" by (simp add: filter_id_conv)
    then show ?thesis using True Cons(3) by simp
  next
    case False
    then show ?thesis using Cons by auto
  qed
qed

lemma insert_entry_entries:
  assumes "lru_inv c" "nbytes c = total_bytes Len c"
  shows "\<exists>c1 a. insert_entry Len c k v = Some c1 \<and> lru_inv c1 \<and> nbytes c1 = total_bytes Len c1 \<and>
     ll c1 = a # remove1 a (ll c) \<and> elems c1 a = Some \<lparr>key = k, value = v\<rparr> \<and>
     entries c1 = \<lparr>key = k, value = v\<rparr> # filter (\<lambda>e. key e \<noteq> k) (entries c)"
proof -
  from insert_entry_inv[OF assms, of k v] obtain c1 a where
    c1: "insert_entry Len c k v = Some c1" "lru_inv c1" "nbytes c1 = total_bytes Len c1"
      "ll c1 = a # remove1 a (ll c)" "elems c1 a = Some \<lparr>key = k, value = v\<rparr>" "cache c1 k = Some a"
      "\<forall>b. b \<noteq> a \<longrightarrow> elems c1 b = elems c b"
    by blast
  have d: "distinct (ll c)" by (rule lru_inv_distinct[OF assms(1)])
  have rest: "map (\<lambda>b. the (elems c1 b)) (remove1 a (ll c)) = map (\<lambda>b. the (elems c b)) (remove1 a (ll c))"
    using c1(7) d by (intro map_cong) auto
  have ka: "\<forall>b \<in> set (ll c). (key (the (elems c b)) = k) = (b = a)"
  proof
    fix b assume b: "b \<in> set (ll c)"
    from lru_inv_llD[OF assms(1) b] obtain kv where kv: "elems c b = Some kv" "cache c (key kv) = Some b" by auto
    show "(key (the (elems c b)) = k) = (b = a)"
    proof (cases "b = a")
      case True
      have "a \<in> set (ll c1)" using c1(4) by simp
      have "cache c k \<noteq> None"
      proof
        assume n: "cache c k = None"
        then have "a = nextElem c" using c1(1,4) by (auto simp: insert_entry_def Let_def PushFront_def)
        then show False using lru_inv_llD[OF assms(1) b] True by simp
      qed
      then obtain a' where a': "cache c k = Some a'" by auto
      from lru_inv_cacheD[OF assms(1) a'] obtain kv' where kv': "a' \<in> set (ll c)" "elems c a' = Some kv'" "key kv' = k" by auto
      have "a = a'" using c1(1,4) a' kv' by (auto simp: insert_entry_def MoveToFront_def)
      then show ?thesis using True kv kv' by simp
    next
      case False
      have "key kv \<noteq> k"
      proof
        assume "key kv = k"
        then have ck: "cache c k = Some b" using kv by simp
        from lru_inv_cacheD[OF assms(1) ck] obtain kv' where "elems c b = Some kv'" by auto
        then have "ll c1 = b # remove1 b (ll c)" using c1(1) ck b by (auto simp: insert_entry_def MoveToFront_def)
        then show False using c1(4) False by simp
      qed
      then show ?thesis using False kv by simp
    qed
  qed
  have "entries c1 = \<lparr>key = k, value = v\<rparr> # map (\<lambda>b. the (elems c b)) (remove1 a (ll c))"
    using entries_map[OF c1(2)] c1(4,5) rest by simp
  also have "map (\<lambda>b. the (elems c b)) (remove1 a (ll c)) =
       map (\<lambda>b. the (elems c b)) (filter (\<lambda>b. key (the (elems c b)) \<noteq> k) (ll c))"
    by (rule remove1_filter_key[OF d ka])
  also have "\<dots> = filter (\<lambda>e. key e \<noteq> k) (entries c)"
    using entries_map[OF assms(1)] by (simp add: filter_map comp_def)
  finally show ?thesis using c1 by blast
qed

lemmas lru_eval = Cache_Add_def insert_entry_def evict.simps Cache_RemoveOldest_def Cache_Get_def lru_New_def
  MoveToFront_def Remove_def Back_def PushFront_def String_Len_def Let_def word_sless_alt word_sle_eq


section \<open>Claims about the LRU cache\<close>

text \<open>
  Claim C5 (LRU byte conservation). Take a cache made by \<open>New\<close> with budget \<open>B\<close> and
  any sequence of \<open>Add\<close> and \<open>Get\<close> calls. When \<open>B\<close> is not negative every call
  returns. Whenever the calls return, the list and the map hold the same entries, the
  counter \<open>nbytes\<close> is the sum of \<open>len(key) + value.Len()\<close> over the entries present
  (in the \<open>int64\<close> arithmetic of the counter), and for \<open>B > 0\<close> the counter is at
  most \<open>B\<close>. Every prefix of a sequence is a sequence, so this holds on exit of each
  call.
\<close>

theorem lru_byte_conservation:
  "(0 \<le>s B \<longrightarrow> lru_run Len (lru_New B cb) ops \<noteq> None) \<and>
   (\<forall>c. lru_run Len (lru_New B cb) ops = Some c \<longrightarrow>
      lru_inv c \<and> nbytes c = total_bytes Len c \<and> (0 <s B \<longrightarrow> nbytes c \<le>s B))"
proof (intro conjI allI impI)
  assume "0 \<le>s B"
  then have "0 \<le>s maxBytes (lru_New B cb :: 'a Cache)" by (simp add: lru_New_def)
  from lru_run_terminates[OF lru_good_New this, of Len ops]
  show "lru_run Len (lru_New B cb) ops \<noteq> None" by auto
next
  fix c assume r: "lru_run Len (lru_New B cb) ops = Some c"
  from lru_run_good[OF r lru_good_New] have g: "lru_good Len c" "maxBytes c = B" by (simp_all add: lru_New_def)
  then show "lru_inv c" "nbytes c = total_bytes Len c" by (simp_all add: lru_good_def lru_ok_def)
  assume "0 <s B"
  then show "nbytes c \<le>s B" using g by (simp add: lru_good_def)
qed

theorem lru_byte_conservation_witness:
  "\<exists>c. lru_run String_Len (lru_New 8 False)
          [OpAdd ''k1'' ''v1'', OpGet ''k1'', OpAdd ''k2'' ''v2'', OpAdd ''k3'' ''v3''] = Some c
      \<and> nbytes c = total_bytes String_Len c \<and> nbytes c \<le>s 8"
  using lru_byte_conservation[of 8 String_Len False
          "[OpAdd ''k1'' ''v1'', OpGet ''k1'', OpAdd ''k2'' ''v2'', OpAdd ''k3'' ''v3'']"]
  by (auto simp: word_sless_alt word_sle_eq)

text \<open>
  Claim C6 (LRU recency), as stated: after a successful \<open>Get(k)\<close> or an \<open>Add(k, v)\<close>
  the entry \<open>k\<close> is at the front of the recency list. For \<open>Add\<close> this fails when
  the entry alone exceeds the budget: with budget 1, \<open>Add("k1", "v1")\<close> returns with
  an empty list, so there is no front entry.
\<close>

theorem lru_recency_counterexample:
  "map_option front_key (Cache_Add String_Len (lru_New 1 False) ''k1'' ''v1'') = Some None"
  by (simp add: Cache_Add_def insert_entry_def evict.simps Cache_RemoveOldest_def lru_New_def
      MoveToFront_def Remove_def Back_def PushFront_def String_Len_def Let_def word_sless_alt
      front_key_def)

text \<open>
  Claim C6, amended. For a cache reached from \<open>New\<close> by \<open>Add\<close> and \<open>Get\<close> calls:
  after a successful \<open>Get(k)\<close> the entry \<open>k\<close> is the front entry; after \<open>Add(k, v)\<close>
  the entry \<open>k\<close> is the front entry unless the eviction loop has emptied the cache;
  \<open>Add\<close> leaves a prefix of the list that has \<open>(k, v)\<close> in front of the other
  entries in their old order, so its evictions take entries from the back only, and
  the map has exactly the keys of the entries left; \<open>RemoveOldest\<close> removes exactly
  the back entry from the list and from the map.
\<close>

theorem lru_recency:
  assumes "lru_run Len (lru_New B cb) ops = Some c"
  shows "(\<forall>v c'. Cache_Get c k = Some (c', Some v) \<longrightarrow> front_key c' = Some k) \<and>
         (\<forall>v c'. Cache_Add Len c k v = Some c' \<longrightarrow>
            (front_key c' = Some k \<or> entries c' = []) \<and>
            (\<exists>n. entries c' = take n (\<lparr>key = k, value = v\<rparr> # filter (\<lambda>e. key e \<noteq> k) (entries c))) \<and>
            dom (cache c') = key ` set (entries c')) \<and>
         (\<exists>c'. Cache_RemoveOldest Len c = Some c' \<and> entries c' = butlast (entries c) \<and>
            dom (cache c') = key ` set (entries c'))"
proof (intro conjI allI impI)
  note r = lru_run_reach[OF assms]
  {
    fix v c' assume g: "Cache_Get c k = Some (c', Some v)"
    then obtain a kv where a: "cache c k = Some a" "elems c a = Some kv" "c' = c\<lparr>ll := MoveToFront a (ll c)\<rparr>"
      by (auto simp: Cache_Get_def split: option.splits)
    from lru_inv_cacheD[OF r(1) a(1)] a(2) have "a \<in> set (ll c)" "key kv = k" by auto
    then show "front_key c' = Some k" using a by (simp add: front_key_def MoveToFront_def)
  }
  {
    fix v c' assume add: "Cache_Add Len c k v = Some c'"
    from insert_entry_entries[OF r(1,2), of k v] obtain c1 a where
      c1: "insert_entry Len c k v = Some c1" "lru_inv c1" "nbytes c1 = total_bytes Len c1"
        "ll c1 = a # remove1 a (ll c)" "elems c1 a = Some \<lparr>key = k, value = v\<rparr>"
        "entries c1 = \<lparr>key = k, value = v\<rparr> # filter (\<lambda>e. key e \<noteq> k) (entries c)"
      by blast
    have ev: "evict Len c1 = Some c'" using add c1(1) by (simp add: Cache_Add_def)
    from evict_post[OF ev c1(2,3)] obtain n where
      p: "lru_inv c'" "elems c' = elems c1" "ll c' = take n (ll c1)" by auto
    have en: "entries c' = take n (entries c1)"
      using entries_map[OF p(1)] entries_map[OF c1(2)] p(2,3) by (simp add: take_map)
    show "front_key c' = Some k \<or> entries c' = []"
    proof (cases n)
      case 0
      then show ?thesis using en by simp
    next
      case (Suc m)
      then show ?thesis using p(2,3) c1(4,5) by (simp add: front_key_def)
    qed
    show "\<exists>n. entries c' = take n (\<lparr>key = k, value = v\<rparr> # filter (\<lambda>e. key e \<noteq> k) (entries c))"
      using en c1(6) by auto
    show "dom (cache c') = key ` set (entries c')" by (rule lru_inv_dom[OF p(1)])
  }
  show "\<exists>c'. Cache_RemoveOldest Len c = Some c' \<and> entries c' = butlast (entries c) \<and>
            dom (cache c') = key ` set (entries c')"
  proof (cases "ll c = []")
    case True
    then have "Cache_RemoveOldest Len c = Some c" "entries c = []"
      by (simp_all add: Cache_RemoveOldest_def Back_def entries_def)
    then show ?thesis using lru_inv_dom[OF r(1)] by simp
  next
    case False
    from Cache_RemoveOldest_step[OF r(1,2) False] obtain c1 where
      "Cache_RemoveOldest Len c = Some c1" "lru_inv c1" "entries c1 = butlast (entries c)" by blast
    then show ?thesis using lru_inv_dom[of c1] by blast
  qed
qed

theorem lru_recency_witness:
  "\<exists>c cg ca. lru_run String_Len (lru_New 8 False) [OpAdd ''k1'' ''v1'', OpAdd ''k2'' ''v2''] = Some c \<and>
      Cache_Get c ''k1'' = Some (cg, Some ''v1'') \<and> front_key cg = Some ''k1'' \<and>
      Cache_Add String_Len c ''k3'' ''v3'' = Some ca \<and> front_key ca = Some ''k3'' \<and>
      map key (entries ca) = [''k3'', ''k2'']"
proof -
  define c0 :: "string Cache" where
    "c0 = \<lparr>maxBytes = 8, nbytes = 8, ll = [1, 0],
           elems = [0 \<mapsto> \<lparr>key = ''k1'', value = ''v1''\<rparr>, 1 \<mapsto> \<lparr>key = ''k2'', value = ''v2''\<rparr>],
           cache = [''k1'' \<mapsto> 0, ''k2'' \<mapsto> 1], OnEvicted = False, evicted = [], nextElem = 2\<rparr>"
  have run: "lru_run String_Len (lru_New 8 False) [OpAdd ''k1'' ''v1'', OpAdd ''k2'' ''v2''] = Some c0"
    by (simp add: lru_eval c0_def)
  have get: "Cache_Get c0 ''k1'' = Some (c0\<lparr>ll := [0, 1]\<rparr>, Some ''v1'')"
    by (simp add: lru_eval c0_def)
  have "map_option (\<lambda>ca. map key (entries ca)) (Cache_Add String_Len c0 ''k3'' ''v3'') = Some [''k3'', ''k2'']"
    by (simp add: lru_eval c0_def entries_def)
  then obtain ca where add: "Cache_Add String_Len c0 ''k3'' ''v3'' = Some ca"
      and es: "map key (entries ca) = [''k3'', ''k2'']"
    by (cases "Cache_Add String_Len c0 ''k3'' ''v3''") auto
  note th = lru_recency[OF run]
  from th[of "''k1''"] have "\<forall>v c'. Cache_Get c0 ''k1'' = Some (c', Some v) \<longrightarrow> front_key c' = Some ''k1''"
    by (rule conjunct1)
  with get have f1: "front_key (c0\<lparr>ll := [0, 1]\<rparr>) = Some ''k1''" by blast
  from th[of "''k3''"] have "\<forall>v c'. Cache_Add String_Len c0 ''k3'' v = Some c' \<longrightarrow>
            (front_key c' = Some ''k3'' \<or> entries c' = []) \<and>
            (\<exists>n. entries c' = take n (\<lparr>key = ''k3'', value = v\<rparr> # filter (\<lambda>e. key e \<noteq> ''k3'') (entries c0))) \<and>
            dom (cache c') = key ` set (entries c')"
    by (elim conjE)
  with add have "front_key ca = Some ''k3'' \<or> entries ca = []" by blast
  with es have f2: "front_key ca = Some ''k3''" by auto
  show ?thesis
    by (intro exI conjI) (rule run, rule get, rule f1, rule add, rule f2, rule es)
qed

text \<open>
  Claim C10 (an entry larger than the budget). For a cache reached from \<open>New\<close> with
  budget \<open>B > 0\<close>, and \<open>len(k) + v.Len() > B\<close>: \<open>Add(k, v)\<close> returns with the cache
  empty, the counter 0 and \<open>k\<close> not found by \<open>Get\<close>; when a callback is installed its
  last invocation is for \<open>(k, v)\<close>. The values present have non-negative \<open>Len\<close> and
  the bytes of the entries present and of the new one, added as integers, stay below
  \<open>2^63\<close> (the counter does not wrap).
\<close>

theorem lru_add_oversized:
  assumes "lru_run Len (lru_New B cb) ops = Some c"
    and "0 <s B" and "B <s of_nat (length k) + Len v"
    and "\<forall>kv \<in> set (entries c). 0 \<le>s Len (value kv)"
    and "total_size Len c + (int (length k) + sint (Len v)) < 2 ^ 63"
  shows "\<exists>c'. Cache_Add Len c k v = Some c' \<and> ll c' = [] \<and> cache c' = Map.empty \<and> nbytes c' = 0 \<and>
           Cache_Get c' k = Some (c', None) \<and>
           (OnEvicted c \<longrightarrow> evicted c' \<noteq> [] \<and> last (evicted c') = (k, v))"
proof -
  note r = lru_run_reach[OF assms(1)]
  define e where "e = \<lparr>key = k, value = v\<rparr>"
  from insert_entry_inv[OF r(1,2), of k v] obtain c1 a where
    c1: "insert_entry Len c k v = Some c1" "lru_inv c1" "nbytes c1 = total_bytes Len c1"
      "maxBytes c1 = maxBytes c" "OnEvicted c1 = OnEvicted c" "evicted c1 = evicted c"
      "ll c1 = a # remove1 a (ll c)" "elems c1 a = Some e"
      "\<forall>b. b \<noteq> a \<longrightarrow> elems c1 b = elems c b"
    unfolding e_def by blast
  have d: "distinct (ll c)" by (rule lru_inv_distinct[OF r(1)])
  have nn: "\<forall>kv \<in> set (entries c). 0 \<le> entry_size Len kv"
    using assms(4) by (auto simp: entry_size_def word_sle_eq)
  have tn: "0 \<le> total_size Len c" using nn by (simp add: total_size_def sum_map_nonneg)
  have es: "entry_size Len e = int (length k) + sint (Len v)" by (simp add: entry_size_def e_def)
  have "sint (entry_bytes Len e) = entry_size Len e"
    unfolding entry_bytes_of_int using entry_size_ge[of Len e] tn assms(5) es
    by (intro sint_word_of_int64) auto
  moreover have "entry_bytes Len e = of_nat (length k) + Len v" by (simp add: entry_bytes_def e_def)
  ultimately have big: "sint B < entry_size Len e" using assms(3) by (simp add: word_sless_alt)
  have epos: "0 \<le> entry_size Len e" using big assms(2) by (simp add: word_sless_alt)
  have rest: "map (\<lambda>b. the (elems c1 b)) (remove1 a (ll c)) = map (\<lambda>b. the (elems c b)) (remove1 a (ll c))"
    using c1(9) d by (intro map_cong) auto
  have e1: "entries c1 = e # map (\<lambda>b. the (elems c b)) (remove1 a (ll c))"
    using entries_map[OF c1(2)] c1(7,8) rest by simp
  have sub: "set (map (\<lambda>b. the (elems c b)) (remove1 a (ll c))) \<subseteq> set (entries c)"
    using entries_map[OF r(1)] set_remove1_subset[of a "ll c"] by auto
  have nn1: "\<forall>kv \<in> set (entries c1). 0 \<le> entry_size Len kv" using nn sub epos e1 by auto
  have "sum_list (map (entry_size Len) (map (\<lambda>b. the (elems c b)) (remove1 a (ll c)))) \<le> total_size Len c"
  proof (cases "a \<in> set (ll c)")
    case True
    have "0 \<le> entry_size Len (the (elems c a))" using nn entries_map[OF r(1)] True by auto
    moreover have "total_size Len c = entry_size Len (the (elems c a)) +
        sum_list (map (entry_size Len) (map (\<lambda>b. the (elems c b)) (remove1 a (ll c))))"
      using sum_list_map_remove1[OF True, of "\<lambda>b. entry_size Len (the (elems c b))"] entries_map[OF r(1)]
      by (simp add: total_size_def comp_def)
    ultimately show ?thesis by simp
  next
    case False
    then show ?thesis using entries_map[OF r(1)] by (simp add: total_size_def remove1_idem)
  qed
  then have b1: "total_size Len c1 < 2 ^ 63" using assms(5) es e1 by (simp add: total_size_def)
  from evict_oversized[OF c1(7) c1(2,3) c1(8)] assms(2) big nn1 b1 c1(4) r(3) obtain c' where
    c': "evict Len c1 = Some c'" "ll c' = []" "lru_inv c'" "nbytes c' = 0"
      "evicted c' = evicted c1 @ (if OnEvicted c1 then map (\<lambda>kv. (key kv, value kv)) (rev (entries c1)) else [])"
    by auto
  have add: "Cache_Add Len c k v = Some c'" using c1(1) c'(1) by (simp add: Cache_Add_def)
  have emp: "cache c' = Map.empty" by (rule lru_inv_empty[OF c'(3,2)])
  have get: "Cache_Get c' k = Some (c', None)" using emp by (simp add: Cache_Get_def)
  have "OnEvicted c \<longrightarrow> evicted c' \<noteq> [] \<and> last (evicted c') = (k, v)"
    using c'(5) c1(5) e1 by (simp add: e_def)
  then show ?thesis using add c'(2,4) emp get by blast
qed

theorem lru_add_oversized_witness:
  "\<exists>c c'. lru_run String_Len (lru_New 8 True) [OpAdd ''k1'' ''v1''] = Some c \<and>
      (0::int64) <s 8 \<and> (8::int64) <s of_nat (length ''k2'') + String_Len ''a long value'' \<and>
      Cache_Add String_Len c ''k2'' ''a long value'' = Some c' \<and> ll c' = [] \<and> nbytes c' = 0 \<and>
      Cache_Get c' ''k2'' = Some (c', None) \<and> last (evicted c') = (''k2'', ''a long value'')"
proof -
  define c0 :: "string Cache" where
    "c0 = \<lparr>maxBytes = 8, nbytes = 4, ll = [0], elems = [0 \<mapsto> \<lparr>key = ''k1'', value = ''v1''\<rparr>],
           cache = [''k1'' \<mapsto> 0], OnEvicted = True, evicted = [], nextElem = 1\<rparr>"
  have run: "lru_run String_Len (lru_New 8 True) [OpAdd ''k1'' ''v1''] = Some c0"
    by (simp add: lru_eval c0_def)
  have h2: "(0::int64) <s 8" by (simp add: word_sless_alt)
  have h3: "(8::int64) <s of_nat (length ''k2'') + String_Len ''a long value''"
    by (simp add: word_sless_alt String_Len_def)
  have h4: "\<forall>kv \<in> set (entries c0). 0 \<le>s String_Len (value kv)"
    by (simp add: entries_def c0_def String_Len_def word_sle_eq)
  have h5: "total_size String_Len c0 + (int (length ''k2'') + sint (String_Len ''a long value'')) < 2 ^ 63"
    by (simp add: total_size_def entry_size_def entries_def c0_def String_Len_def)
  from lru_add_oversized[OF run h2 h3 h4 h5] run h2 h3 show ?thesis
    by (auto simp: c0_def)
qed


section \<open>The hash ring: search, Add and Remove\<close>

declare add_replicas.simps [simp del] remove_replicas.simps [simp del] search_loop.simps [simp del]
  itoa_nat.simps [simp del]

lemma search_loop_spec:
  assumes "\<forall>x y. x \<le> y \<and> y < n \<and> f x \<longrightarrow> f y"
    and "i \<le> j" and "j \<le> n"
    and "\<forall>x<i. \<not> f x" and "\<forall>x. j \<le> x \<and> x < n \<longrightarrow> f x"
  shows "search_loop f i j \<le> n \<and> (\<forall>x < search_loop f i j. \<not> f x) \<and>
         (\<forall>x. search_loop f i j \<le> x \<and> x < n \<longrightarrow> f x)"
  using assms
proof (induction f i j rule: search_loop.induct)
  case (1 f i j)
  show ?case
  proof (cases "i < j")
    case False
    then have "search_loop f i j = i" by (simp add: search_loop.simps)
    moreover have "i = j" using False 1(4) by simp
    ultimately show ?thesis using 1(5,6,7) by auto
  next
    case True
    define h where "h = (i + j) div 2"
    have hb: "i \<le> h" "h < j" using True by (auto simp: h_def)
    show ?thesis
    proof (cases "f h")
      case False
      have eq: "search_loop f i j = search_loop f (h + 1) j"
        using True False by (subst search_loop.simps) (simp add: h_def Let_def)
      have "\<forall>x<h + 1. \<not> f x"
      proof (intro allI impI)
        fix x assume "x < h + 1"
        then have "x \<le> h" by simp
        moreover have "h < n" using hb 1(5) by simp
        ultimately show "\<not> f x" using 1(3) False by blast
      qed
      with 1(1)[OF True h_def False 1(3)] hb 1(5,7) show ?thesis unfolding eq by simp
    next
      case fh: True
      have eq: "search_loop f i j = search_loop f i h"
        using True fh by (subst search_loop.simps) (simp add: h_def Let_def)
      have "\<forall>x. h \<le> x \<and> x < n \<longrightarrow> f x" using 1(3) fh by blast
      with 1(2)[OF True h_def _ 1(3)] fh hb 1(5,6) show ?thesis unfolding eq by simp
    qed
  qed
qed

lemma Search_sorted:
  assumes "sorted xs"
  shows "SearchInts xs h \<le> length xs \<and> (\<forall>j < SearchInts xs h. xs ! j < h) \<and>
         (\<forall>j. SearchInts xs h \<le> j \<and> j < length xs \<longrightarrow> h \<le> xs ! j)"
proof -
  have mono: "\<forall>x y. x \<le> y \<and> y < length xs \<and> h \<le> xs ! x \<longrightarrow> h \<le> xs ! y"
    using assms by (auto simp: sorted_iff_nth_mono dest: order_trans)
  from search_loop_spec[where f = "\<lambda>i. h \<le> xs ! i" and n = "length xs" and i = 0 and j = "length xs", OF mono]
  show ?thesis by (simp add: SearchInts_def Search_def not_le)
qed


lemma find_first_index:
  assumes "r < length xs" "P (xs ! r)" "\<forall>j<r. \<not> P (xs ! j)"
  shows "find P xs = Some (xs ! r)"
  using assms by (auto simp: find_Some_iff)

lemma Map_Get_eq_spec:
  assumes "sorted (keys m)"
  shows "Map_Get m k = Ring_Get_spec m k"
proof (cases "keys m")
  case Nil
  then show ?thesis by (simp add: Map_Get_def Ring_Get_spec_def)
next
  case (Cons k0 ks)
  define h where "h = uint (hash m k)"
  define idx where "idx = SearchInts (keys m) h"
  from Search_sorted[OF assms, of h] have
    s: "idx \<le> length (keys m)" "\<forall>j<idx. keys m ! j < h" "\<forall>j. idx \<le> j \<and> j < length (keys m) \<longrightarrow> h \<le> keys m ! j"
    by (simp_all add: idx_def)
  have g: "Map_Get m k = hashMap_at m (keys m ! (idx mod length (keys m)))"
    using Cons by (simp add: Map_Get_def Let_def idx_def h_def SearchInts_def)
  show ?thesis
  proof (cases "idx < length (keys m)")
    case True
    have "find (\<lambda>x. h \<le> x) (keys m) = Some (keys m ! idx)"
      using True s by (intro find_first_index) (auto simp: not_le)
    then show ?thesis using g True Cons by (simp add: Ring_Get_spec_def first_at_least_def h_def)
  next
    case False
    then have e: "idx = length (keys m)" using s(1) by simp
    have "\<forall>x \<in> set (keys m). \<not> h \<le> x" using s(2) e by (auto simp: in_set_conv_nth not_le)
    then have "find (\<lambda>x. h \<le> x) (keys m) = None" by (simp add: find_None_iff)
    then show ?thesis using g e Cons by (simp add: Ring_Get_spec_def first_at_least_def h_def)
  qed
qed

lemma vnode_hashes_alt: "vnode_hashes m p = map (vhash m p) [0 ..< nat (replicas m)]"
  by (simp add: vnode_hashes_def vhash_def)

lemma add_replicas_spec:
  "0 \<le> i \<Longrightarrow>
   add_replicas m p i =
     m\<lparr>keys := keys m @ map (vhash m p) [nat i ..< nat (replicas m)],
       hashMap := (\<lambda>h. if h \<in> set (map (vhash m p) [nat i ..< nat (replicas m)]) then Some p
                         else hashMap m h)\<rparr>"
proof (induction m p i rule: add_replicas.induct)
  case (1 m k i)
  show ?case
  proof (cases "i < replicas m")
    case False
    then have "[nat i ..< nat (replicas m)] = []" by simp
    then show ?thesis using False by (subst add_replicas.simps) simp
  next
    case True
    define h where "h = uint (hash m (Itoa i @ k))"
    define m1 where "m1 = m\<lparr>keys := keys m @ [h], hashMap := (hashMap m)(h \<mapsto> k)\<rparr>"
    have hv: "h = vhash m k (nat i)" using 1(2) by (simp add: h_def vhash_def)
    have v1: "vhash m1 k = vhash m k" by (rule ext) (simp add: vhash_def m1_def)
    have up: "[nat i ..< nat (replicas m)] = nat i # [nat (i + 1) ..< nat (replicas m)]"
    proof -
      have n1: "nat (i + 1) = Suc (nat i)" using 1(2) by linarith
      have lt: "nat i < nat (replicas m)" using True 1(2) by linarith
      show ?thesis unfolding n1 using lt by (rule upt_conv_Cons)
    qed
    have "add_replicas m k i = add_replicas m1 k (i + 1)"
      using True by (subst add_replicas.simps) (simp add: h_def m1_def Let_def)
    also have "\<dots> = m1\<lparr>keys := keys m1 @ map (vhash m1 k) [nat (i + 1) ..< nat (replicas m1)],
       hashMap := (\<lambda>h. if h \<in> set (map (vhash m1 k) [nat (i + 1) ..< nat (replicas m1)]) then Some k
                         else hashMap m1 h)\<rparr>"
      using 1(1)[OF True h_def] 1(2) unfolding m1_def by simp
    also have "\<dots> = m\<lparr>keys := keys m @ map (vhash m k) [nat i ..< nat (replicas m)],
       hashMap := (\<lambda>h. if h \<in> set (map (vhash m k) [nat i ..< nat (replicas m)]) then Some k
                         else hashMap m h)\<rparr>"
      unfolding v1 up by (auto simp: m1_def hv fun_eq_iff)
    finally show ?thesis .
  qed
qed

lemma Map_Add_single:
  "Map_Add m [p] =
     m\<lparr>keys := sort (keys m @ vnode_hashes m p),
       hashMap := (\<lambda>h. if h \<in> set (vnode_hashes m p) then Some p else hashMap m h)\<rparr>"
  by (simp add: Map_Add_def add_replicas_spec vnode_hashes_alt Let_def)

lemma remove1_at_first:
  "r < length xs \<Longrightarrow> xs ! r = h \<Longrightarrow> \<forall>j<r. xs ! j \<noteq> h \<Longrightarrow>
     take r xs @ drop (Suc r) xs = remove1 h xs"
proof (induction xs arbitrary: r)
  case Nil
  then show ?case by simp
next
  case (Cons x xs)
  show ?case
  proof (cases r)
    case 0
    then show ?thesis using Cons(3) by simp
  next
    case (Suc r')
    have "x \<noteq> h" using Cons(4) Suc by auto
    moreover have "take r' xs @ drop (Suc r') xs = remove1 h xs"
      using Cons(2,3,4) Suc by (intro Cons(1)) auto
    ultimately show ?thesis using Suc by simp
  qed
qed

lemma SearchInts_present:
  assumes "sorted xs" "h \<in> set xs"
  shows "SearchInts xs h < length xs \<and>
         take (SearchInts xs h) xs @ drop (SearchInts xs h + 1) xs = remove1 h xs"
proof -
  define r where "r = SearchInts xs h"
  from Search_sorted[OF assms(1), of h] have
    s: "r \<le> length xs" "\<forall>j<r. xs ! j < h" "\<forall>j. r \<le> j \<and> j < length xs \<longrightarrow> h \<le> xs ! j"
    by (simp_all add: r_def)
  from assms(2) obtain i where i: "i < length xs" "xs ! i = h" by (auto simp: in_set_conv_nth)
  have "r \<le> i" using s(2) i by (metis not_le_imp_less order_less_irrefl)
  then have rl: "r < length xs" using i by simp
  have "h \<le> xs ! r" using s(3) rl by simp
  moreover have "xs ! r \<le> xs ! i" using assms(1) \<open>r \<le> i\<close> i(1) by (simp add: sorted_iff_nth_mono)
  ultimately have "xs ! r = h" using i(2) by simp
  moreover have "\<forall>j<r. xs ! j \<noteq> h" using s(2) by auto
  ultimately show ?thesis using remove1_at_first[OF rl] rl unfolding r_def by simp
qed

lemma remove_replicas_spec:
  assumes "0 \<le> i" "sorted (keys m)"
    "mset (map (vhash m p) [nat i ..< nat (replicas m)]) \<subseteq># mset (keys m)"
  shows "\<exists>m'. remove_replicas m p i = Some m' \<and> sorted (keys m') \<and>
     mset (keys m') = mset (keys m) - mset (map (vhash m p) [nat i ..< nat (replicas m)]) \<and>
     hashMap m' = (\<lambda>h. if h \<in> set (map (vhash m p) [nat i ..< nat (replicas m)]) then None
                        else hashMap m h) \<and>
     hash m' = hash m \<and> replicas m' = replicas m"
  using assms
proof (induction m p i rule: remove_replicas.induct)
  case (1 m k i)
  show ?case
  proof (cases "i < replicas m")
    case False
    then have "[nat i ..< nat (replicas m)] = []" by simp
    then show ?thesis using False 1(3) by (subst remove_replicas.simps) simp
  next
    case True
    define h where "h = uint (hash m (Itoa i @ k))"
    define idx where "idx = SearchInts (keys m) h"
    define m1 where "m1 = m\<lparr>keys := take idx (keys m) @ drop (idx + 1) (keys m),
                        hashMap := (hashMap m)(h := None)\<rparr>"
    have hv: "h = vhash m k (nat i)" using 1(2) by (simp add: h_def vhash_def)
    have v1: "vhash m1 k = vhash m k" by (rule ext) (simp add: vhash_def m1_def)
    have up: "[nat i ..< nat (replicas m)] = nat i # [nat (i + 1) ..< nat (replicas m)]"
    proof -
      have n1: "nat (i + 1) = Suc (nat i)" using 1(2) by linarith
      have lt: "nat i < nat (replicas m)" using True 1(2) by linarith
      show ?thesis unfolding n1 using lt by (rule upt_conv_Cons)
    qed
    define rest where "rest = map (vhash m k) [nat (i + 1) ..< nat (replicas m)]"
    have sub: "add_mset h (mset rest) \<subseteq># mset (keys m)"
      using 1(4) unfolding up by (simp add: hv rest_def)
    then have hin: "h \<in> set (keys m)" by (metis insert_subset_eq_iff set_mset_mset)
    from SearchInts_present[OF 1(3) hin] have
      p: "idx < length (keys m)" "keys m1 = remove1 h (keys m)"
      by (simp_all add: idx_def m1_def)
    have step: "remove_replicas m k i = remove_replicas m1 k (i + 1)"
      using True p(1) by (subst remove_replicas.simps) (simp add: h_def idx_def m1_def Let_def)
    have s1: "sorted (keys m1)" using 1(3) p(2) by (simp add: sorted_remove1)
    have sub1: "mset (map (vhash m1 k) [nat (i + 1) ..< nat (replicas m1)]) \<subseteq># mset (keys m1)"
      using sub hin unfolding v1 p(2) by (simp add: m1_def rest_def[symmetric] insert_subset_eq_iff)
    have nl: "\<not> length (keys m) < idx + 1" using p(1) by simp
    have i1: "0 \<le> i + 1" using 1(2) by simp
    note IH = 1(1)[OF True h_def idx_def nl i1 s1[unfolded m1_def] sub1[unfolded m1_def], folded m1_def]
    from IH obtain m' where
      m': "remove_replicas m1 k (i + 1) = Some m'" "sorted (keys m')"
        "mset (keys m') = mset (keys m1) - mset (map (vhash m1 k) [nat (i + 1) ..< nat (replicas m1)])"
        "hashMap m' = (\<lambda>h. if h \<in> set (map (vhash m1 k) [nat (i + 1) ..< nat (replicas m1)]) then None
                        else hashMap m1 h)"
        "hash m' = hash m1" "replicas m' = replicas m1"
      by blast
    have "mset (keys m') = mset (keys m) - mset (map (vhash m k) [nat i ..< nat (replicas m)])"
      using m'(3) unfolding v1 up p(2) by (simp add: m1_def hv)
    moreover have "hashMap m' = (\<lambda>h. if h \<in> set (map (vhash m k) [nat i ..< nat (replicas m)]) then None
                        else hashMap m h)"
      using m'(4) unfolding v1 up by (auto simp: m1_def hv fun_eq_iff)
    ultimately show ?thesis using step m' by (simp add: m1_def)
  qed
qed


lemma sorted_splice:
  assumes "sorted (xs :: int list)"
  shows "sorted (take i xs @ drop (Suc i) xs)"
proof -
  have "sorted (take i xs @ drop i xs)" using assms by simp
  then have a: "sorted (take i xs)" "sorted (drop i xs)"
      "\<forall>x \<in> set (take i xs). \<forall>y \<in> set (drop i xs). x \<le> y"
    unfolding sorted_append by auto
  have "sorted (drop (Suc i) xs)" using assms by (rule sorted_wrt_drop)
  moreover have "set (drop (Suc i) xs) \<subseteq> set (drop i xs)"
    by (rule set_drop_subset_set_drop) simp
  ultimately show ?thesis using a unfolding sorted_append by blast
qed

lemma Map_Add_sorted: "sorted (keys (Map_Add m ps))"
  by (simp add: Map_Add_def Let_def)

lemma remove_replicas_sorted:
  "remove_replicas m p i = Some m' \<Longrightarrow> sorted (keys m) \<Longrightarrow> sorted (keys m')"
proof (induction m p i rule: remove_replicas.induct)
  case (1 m k i)
  show ?case
  proof (cases "i < replicas m")
    case False
    then have "m' = m" using 1(2) by (subst (asm) remove_replicas.simps) simp
    then show ?thesis using 1(3) by simp
  next
    case True
    define h where "h = uint (hash m (Itoa i @ k))"
    define idx where "idx = SearchInts (keys m) h"
    have nl: "\<not> length (keys m) < idx + 1"
      using 1(2) True by (subst (asm) remove_replicas.simps) (auto simp: h_def idx_def Let_def split: if_splits)
    have step: "remove_replicas (m\<lparr>keys := take idx (keys m) @ drop (idx + 1) (keys m),
                        hashMap := (hashMap m)(h := None)\<rparr>) k (i + 1) = Some m'"
      using 1(2) True nl by (subst (asm) remove_replicas.simps) (simp add: h_def idx_def Let_def)
    have "sorted (take idx (keys m) @ drop (idx + 1) (keys m))"
      using sorted_splice[OF 1(3), of idx] by simp
    then show ?thesis using 1(1)[OF True h_def idx_def nl step] by simp
  qed
qed

lemma Map_Remove_sorted:
  "Map_Remove m p = Some m' \<Longrightarrow> sorted (keys m) \<Longrightarrow> sorted (keys m')"
  unfolding Map_Remove_def by (rule remove_replicas_sorted)

lemma consistenthash_New_sorted: "sorted (keys (consistenthash_New crc n fn))"
  by (simp add: consistenthash_New_def)

lemma Map_Get_cong:
  assumes "keys m' = keys m" "hash m' = hash m" "\<forall>h \<in> set (keys m). hashMap m' h = hashMap m h"
  shows "Map_Get m' k = Map_Get m k"
proof (cases "keys m = []")
  case True
  then show ?thesis using assms by (simp add: Map_Get_def)
next
  case False
  define idx where "idx = Search (length (keys m)) (\<lambda>i. uint (hash m k) \<le> keys m ! i)"
  have "idx mod length (keys m) < length (keys m)" using False by simp
  then have "keys m ! (idx mod length (keys m)) \<in> set (keys m)" by (rule nth_mem)
  then have "hashMap_at m' (keys m ! (idx mod length (keys m))) = hashMap_at m (keys m ! (idx mod length (keys m)))"
    using assms(3) by (simp add: hashMap_at_def)
  then show ?thesis using assms(1,2) False by (simp add: Map_Get_def Let_def idx_def)
qed

lemma ring3_keys: "keys ring3 = [2, 4, 6, 12, 14, 16, 22, 24, 26]"
  by code_simp

lemma ring3_hash: "hash ring3 = atoi_Hash"
  by (simp add: ring3_def Map_Add_def Let_def consistenthash_New_def add_replicas_spec)

lemma h27: "uint (atoi_Hash ''27'') = 27" by code_simp 
lemma h23: "uint (atoi_Hash ''23'') = 23" by code_simp

lemma ring3_vnodes8: "vnode_hashes ring3 ''8'' = [8, 18, 28]" by code_simp


section \<open>Claims about the hash ring\<close>

text \<open>
  Claim C7 (ring lookup). On a ring whose hashes are sorted (\<open>Add\<close> sorts them and
  \<open>Remove\<close> keeps them sorted), \<open>Get(key)\<close> is what the specification says: the empty
  peer id when there are no virtual nodes; otherwise \<open>M[K[idx]]\<close> for the smallest index
  \<open>idx\<close> with \<open>K[idx] \<ge> H(key)\<close>; and \<open>M[K[0]]\<close> when \<open>H(key)\<close> exceeds every hash of
  \<open>K\<close>.
\<close>

theorem ring_get:
  assumes "sorted (keys m)"
  shows "Map_Get m k = Ring_Get_spec m k \<and>
         (keys m = [] \<longrightarrow> Map_Get m k = []) \<and>
         (\<forall>i < length (keys m). uint (hash m k) \<le> keys m ! i \<and> (\<forall>j<i. keys m ! j < uint (hash m k))
              \<longrightarrow> Map_Get m k = hashMap_at m (keys m ! i)) \<and>
         (keys m \<noteq> [] \<and> (\<forall>x \<in> set (keys m). x < uint (hash m k))
              \<longrightarrow> Map_Get m k = hashMap_at m (keys m ! 0))"
proof -
  have eq: "Map_Get m k = Ring_Get_spec m k" by (rule Map_Get_eq_spec[OF assms])
  have a: "keys m = [] \<longrightarrow> Map_Get m k = []" by (simp add: Map_Get_def)
  have b: "\<forall>i < length (keys m). uint (hash m k) \<le> keys m ! i \<and> (\<forall>j<i. keys m ! j < uint (hash m k))
              \<longrightarrow> Map_Get m k = hashMap_at m (keys m ! i)"
  proof (intro allI impI, elim conjE)
    fix i assume i: "i < length (keys m)" "uint (hash m k) \<le> keys m ! i" "\<forall>j<i. keys m ! j < uint (hash m k)"
    then have "find (\<lambda>x. uint (hash m k) \<le> x) (keys m) = Some (keys m ! i)"
      by (intro find_first_index) (auto simp: not_le)
    moreover have "keys m \<noteq> []" using i(1) by auto
    ultimately show "Map_Get m k = hashMap_at m (keys m ! i)"
      unfolding eq by (cases "keys m") (simp_all add: Ring_Get_spec_def first_at_least_def)
  qed
  have c: "keys m \<noteq> [] \<and> (\<forall>x \<in> set (keys m). x < uint (hash m k))
              \<longrightarrow> Map_Get m k = hashMap_at m (keys m ! 0)"
  proof (intro impI, elim conjE)
    assume ne: "keys m \<noteq> []" and all: "\<forall>x \<in> set (keys m). x < uint (hash m k)"
    then have "find (\<lambda>x. uint (hash m k) \<le> x) (keys m) = None" by (auto simp: find_None_iff)
    then show "Map_Get m k = hashMap_at m (keys m ! 0)"
      unfolding eq using ne by (cases "keys m") (simp_all add: Ring_Get_spec_def first_at_least_def)
  qed
  from eq a b c show ?thesis by blast
qed

theorem ring_get_witness:
  "sorted (keys ring3) \<and> Map_Get ring3 ''23'' = hashMap_at ring3 24 \<and> hashMap_at ring3 24 = ''4'' \<and>
   Map_Get ring3 ''27'' = hashMap_at ring3 2 \<and> hashMap_at ring3 2 = ''2''"
proof -
  have s: "sorted (keys ring3)" by (simp add: ring3_keys)
  note th = ring_get[OF s]
  have "Map_Get ring3 ''23'' = hashMap_at ring3 (keys ring3 ! 7)"
    using th[of "''23''"] by (auto simp: ring3_keys ring3_hash h23 less_Suc_eq)
  moreover have "Map_Get ring3 ''27'' = hashMap_at ring3 (keys ring3 ! 0)"
    using th[of "''27''"] by (auto simp: ring3_keys ring3_hash h27)
  moreover have "hashMap_at ring3 24 = ''4''" "hashMap_at ring3 2 = ''2''" by code_simp+
  ultimately show ?thesis using s by (simp add: ring3_keys)
qed

text \<open>
  Claim C8 (ring stability). \<open>Get\<close> is a function of the ring's hash function, sorted
  hashes and map, and leaves the ring as it is. For a ring with sorted hashes and a
  peer \<open>p\<close> none of whose virtual-node hashes is on the ring (no collision; in
  particular \<open>p\<close> is not present), \<open>Add(p)\<close> followed by \<open>Remove(p)\<close> returns, restores
  the hashes, leaves the binding of every hash of the ring as it was, and \<open>Get\<close> answers
  every key as on the original ring.
\<close>

theorem ring_add_remove:
  assumes "sorted (keys m)" "set (vnode_hashes m p) \<inter> set (keys m) = {}"
  shows "\<exists>m'. Map_Remove (Map_Add m [p]) p = Some m' \<and> keys m' = keys m \<and>
           (\<forall>h \<in> set (keys m). hashMap m' h = hashMap m h) \<and>
           (\<forall>k. Map_Get m' k = Map_Get m k)"
proof -
  define hs where "hs = vnode_hashes m p"
  define M1 where "M1 = Map_Add m [p]"
  have M1: "keys M1 = sort (keys m @ hs)" "hash M1 = hash m" "replicas M1 = replicas m"
    "hashMap M1 = (\<lambda>h. if h \<in> set hs then Some p else hashMap m h)"
    by (simp_all add: M1_def Map_Add_single hs_def)
  have v1: "vhash M1 p = vhash m p" by (rule ext) (simp add: vhash_def M1(2))
  have hs1: "map (vhash M1 p) [nat 0 ..< nat (replicas M1)] = hs"
    by (simp add: v1 M1(3) hs_def vnode_hashes_alt)
  have sub: "mset (map (vhash M1 p) [nat 0 ..< nat (replicas M1)]) \<subseteq># mset (keys M1)"
    unfolding hs1 M1(1) by simp
  have "(0::int) \<le> 0" by simp
  from remove_replicas_spec[OF this _ sub] obtain m' where
    m': "remove_replicas M1 p 0 = Some m'" "sorted (keys m')"
      "mset (keys m') = mset (keys M1) - mset (map (vhash M1 p) [nat 0 ..< nat (replicas M1)])"
      "hashMap m' = (\<lambda>h. if h \<in> set (map (vhash M1 p) [nat 0 ..< nat (replicas M1)]) then None
                        else hashMap M1 h)"
      "hash m' = hash M1"
    using M1(1) by auto
  have "mset (keys m') = mset (keys m)" using m'(3) unfolding hs1 M1(1) by simp
  then have "sort (keys m) = keys m'" using m'(2) by (intro properties_for_sort) auto
  then have k: "keys m' = keys m" using assms(1) by (simp add: sorted_sort_id)
  have hm: "\<forall>h \<in> set (keys m). hashMap m' h = hashMap m h"
    using assms(2) unfolding m'(4) hs1 M1(4) by (auto simp: hs_def)
  have "\<forall>k. Map_Get m' k = Map_Get m k"
    using Map_Get_cong[OF k _ hm] m'(5) M1(2) by simp
  then show ?thesis using m'(1) k hm by (auto simp: Map_Remove_def M1_def)
qed

theorem ring_add_remove_witness:
  "sorted (keys ring3) \<and> set (vnode_hashes ring3 ''8'') \<inter> set (keys ring3) = {} \<and>
   (\<exists>m'. Map_Remove (Map_Add ring3 [''8'']) ''8'' = Some m' \<and> keys m' = keys ring3 \<and>
         Map_Get m' ''27'' = Map_Get ring3 ''27'')"
proof -
  have s: "sorted (keys ring3)" by (simp add: ring3_keys)
  have d: "set (vnode_hashes ring3 ''8'') \<inter> set (keys ring3) = {}"
    by (simp add: ring3_keys ring3_vnodes8)
  from ring_add_remove[OF s d] s d show ?thesis by blast
qed


section \<open>singleflight and the group: what a load does\<close>

lemma Do_fresh:
  assumes "in_flight g k = None"
  shows "singleflight_Do g k fn env =
     (case fn env of
        (env', Returned r) \<Rightarrow>
          (g\<lparr>calls := Some ((case calls g of None \<Rightarrow> Map.empty | Some m' \<Rightarrow> m')(k := None))\<rparr>, env', Returned r)
      | (env', Panicked) \<Rightarrow>
          (g\<lparr>calls := Some ((case calls g of None \<Rightarrow> Map.empty | Some m' \<Rightarrow> m')
                 (k \<mapsto> \<lparr>wg = 1, val = None, err = None\<rparr>))\<rparr>, env', Panicked)
      | (env', Hangs) \<Rightarrow>
          (g\<lparr>calls := Some ((case calls g of None \<Rightarrow> Map.empty | Some m' \<Rightarrow> m')
                 (k \<mapsto> \<lparr>wg = 1, val = None, err = None\<rparr>))\<rparr>, env', Hangs))"
  using assms
  by (auto simp: singleflight_Do_def in_flight_def Let_def split: option.splits prod.splits outcome.splits)

lemma load_fn_peer_ok:
  assumes "peers g = Some picker" "picker k = (Some peer, True)" "peer (name g) k = (bytes, None)"
  shows "load_fn k g = (g, Returned (Some (ByteView bytes), None))"
  using assms by (simp add: load_fn_def Group_getFromPeer_def)

lemma load_fn_local:
  assumes "local_path g k"
  shows "load_fn k g = load_local k g"
  using assms
  by (auto simp: load_fn_def local_path_def Group_getFromPeer_def
      split: option.splits prod.splits bool.splits)

lemma load_local_cases:
  "load_local k g =
     (case getter g k of
        (bytes, Some e) \<Rightarrow> (g, Returned (Some (ByteView []), Some e))
      | (bytes, None) \<Rightarrow>
          (case cache_add (mainCache g) k (ByteView bytes) of
             None \<Rightarrow> (g, Hangs)
           | Some c \<Rightarrow> (g\<lparr>mainCache := c\<rparr>, Returned (Some (ByteView bytes), None))))"
  by (auto simp: load_local_def Group_getLocally_def Group_populateCache_def cloneBytes_def Let_def
      split: option.splits prod.splits)

lemma Group_load_fresh:
  assumes "in_flight (loader g) k = None"
  shows "Group_load g k =
     (case load_fn k g of
        (g', Returned (Some v, None)) \<Rightarrow>
          (g'\<lparr>loader := (loader g)\<lparr>calls := Some ((case calls (loader g) of None \<Rightarrow> Map.empty | Some m' \<Rightarrow> m')(k := None))\<rparr>\<rparr>,
           Returned (v, None))
      | (g', Returned (None, None)) \<Rightarrow>
          (g'\<lparr>loader := (loader g)\<lparr>calls := Some ((case calls (loader g) of None \<Rightarrow> Map.empty | Some m' \<Rightarrow> m')(k := None))\<rparr>\<rparr>,
           Panicked)
      | (g', Returned (viewi, Some e)) \<Rightarrow>
          (g'\<lparr>loader := (loader g)\<lparr>calls := Some ((case calls (loader g) of None \<Rightarrow> Map.empty | Some m' \<Rightarrow> m')(k := None))\<rparr>\<rparr>,
           Returned (ByteView [], Some e))
      | (g', Panicked) \<Rightarrow>
          (g'\<lparr>loader := (loader g)\<lparr>calls := Some ((case calls (loader g) of None \<Rightarrow> Map.empty | Some m' \<Rightarrow> m')
                 (k \<mapsto> \<lparr>wg = 1, val = None, err = None\<rparr>))\<rparr>\<rparr>, Panicked)
      | (g', Hangs) \<Rightarrow>
          (g'\<lparr>loader := (loader g)\<lparr>calls := Some ((case calls (loader g) of None \<Rightarrow> Map.empty | Some m' \<Rightarrow> m')
                 (k \<mapsto> \<lparr>wg = 1, val = None, err = None\<rparr>))\<rparr>\<rparr>, Hangs))"
  by (simp add: Group_load_def Do_fresh[OF assms] split: prod.splits outcome.splits option.splits)

lemma load_fn_error_keeps_cache:
  "load_fn k g = (g', Returned (viewi, Some e)) \<Longrightarrow> g' = g"
  by (auto simp: load_fn_def load_local_cases Group_getFromPeer_def
      split: option.splits prod.splits bool.splits outcome.splits)

lemma Group_load_error_keeps_cache:
  assumes "Group_load g k = (g', Returned (v, Some e))"
  shows "mainCache g' = mainCache g"
proof (cases "in_flight (loader g) k")
  case None
  obtain g1 r where l: "load_fn k g = (g1, r)" by (cases "load_fn k g")
  from assms obtain viewi where "r = Returned (viewi, Some e)" "mainCache g' = mainCache g1"
    unfolding Group_load_fresh[OF None] l
    by (auto split: outcome.splits option.splits prod.splits)
  then show ?thesis using load_fn_error_keeps_cache[of k g g1 viewi e] l by simp
next
  case (Some c)
  then show ?thesis using assms
    by (auto simp: Group_load_def singleflight_Do_def in_flight_def Let_def
        split: option.splits if_splits)
qed

lemma cache_get_miss: "cache_get c k = Some (c', None) \<Longrightarrow> c' = c"
  by (auto simp: cache_get_def Cache_Get_def split: option.splits)


section \<open>Claims about the group, singleflight and the pool\<close>

text \<open>
  Claim C1 (a value loaded from a remote peer), as stated: the bytes are inserted into
  the local LRU, so the key is in the group's cache when \<open>load\<close> returns. The group
  \<open>scores\<close> with a picker that chooses a peer answering \<open>630\<close> returns that value for
  \<open>Tom\<close>, and its cache still misses \<open>Tom\<close> afterwards.
\<close>

theorem load_from_peer_counterexample:
  "snd (Group_load (scores (Some pick_remote)) ''Tom'') = Returned (ByteView ''630'', None) \<and>
   map_option snd (cache_get (mainCache (fst (Group_load (scores (Some pick_remote)) ''Tom''))) ''Tom'') = Some None"
  by (simp add: Group_load_def singleflight_Do_def load_fn_def scores_def pick_remote_def peer_ok_def
      Group_getFromPeer_def cache_get_def Let_def)

text \<open>
  Claim C1, amended. When the picker returns a remote peer for the key and the peer's
  \<open>Get(name, key)\<close> succeeds, \<open>load\<close> returns the bytes wrapped in a \<open>ByteView\<close> with
  no error and leaves the group's cache as it was: only \<open>getLocally\<close> populates it.
  (No call for the key is in flight when \<open>load\<close> starts.)
\<close>

theorem load_from_peer:
  assumes "peers g = Some picker" "picker k = (Some peer, True)" "peer (name g) k = (bytes, None)"
    and "in_flight (loader g) k = None"
  shows "\<exists>g'. Group_load g k = (g', Returned (ByteView bytes, None)) \<and>
            mainCache g' = mainCache g \<and> cached g' k = cached g k \<and> in_flight (loader g') k = None"
  using assms(4)
  by (simp add: Group_load_fresh[OF assms(4)] load_fn_peer_ok[OF assms(1,2,3)] cached_def in_flight_def)

theorem load_from_peer_witness:
  "peers (scores (Some pick_remote)) = Some pick_remote \<and> pick_remote ''Tom'' = (Some peer_ok, True) \<and>
   peer_ok (name (scores (Some pick_remote))) ''Tom'' = (''630'', None) \<and>
   in_flight (loader (scores (Some pick_remote))) ''Tom'' = None \<and>
   (\<exists>g'. Group_load (scores (Some pick_remote)) ''Tom'' = (g', Returned (ByteView ''630'', None)) \<and>
         mainCache g' = mainCache (scores (Some pick_remote)) \<and> \<not> cached g' ''Tom'')"
proof -
  have 1: "peers (scores (Some pick_remote)) = Some pick_remote" by (simp add: scores_def)
  have 2: "pick_remote ''Tom'' = (Some peer_ok, True)" by (simp add: pick_remote_def)
  have 3: "peer_ok (name (scores (Some pick_remote))) ''Tom'' = (''630'', None)" by (simp add: peer_ok_def)
  have 4: "in_flight (loader (scores (Some pick_remote))) ''Tom'' = None" by (simp add: scores_def in_flight_def)
  have 5: "\<not> cached (scores (Some pick_remote)) ''Tom''" by (simp add: cached_def scores_def)
  from load_from_peer[OF 1 2 3 4] 5 1 2 3 4 show ?thesis by auto
qed

text \<open>
  Claim C2 (errors of a load). With no call for the key in flight: when the peer's
  \<open>Get\<close> returns an error, \<open>load\<close> gives the result of \<open>getLocally\<close> and leaves the cache
  as \<open>getLocally\<close> does; when the load reaches the local loader and the loader fails,
  \<open>Group.Get\<close> returns the loader's error unchanged; and a \<open>load\<close> or a \<open>Get\<close> that
  returns an error leaves the cache as it was.
\<close>

theorem load_errors:
  assumes "in_flight (loader g) k = None"
  shows "(\<forall>picker peer bytes e.
            peers g = Some picker \<and> picker k = (Some peer, True) \<and> peer (name g) k = (bytes, Some e) \<longrightarrow>
            snd (Group_load g k) = snd (Group_getLocally g k) \<and>
            mainCache (fst (Group_load g k)) = mainCache (fst (Group_getLocally g k))) \<and>
         (\<forall>bytes e c. k \<noteq> [] \<and> cache_get (mainCache g) k = Some (c, None) \<and>
            local_path g k \<and> getter g k = (bytes, Some e) \<longrightarrow>
            snd (Group_Get g k) = Returned (ByteView [], Some e)) \<and>
         (\<forall>g' v e. Group_load g k = (g', Returned (v, Some e)) \<longrightarrow> mainCache g' = mainCache g) \<and>
         (\<forall>g' v e. Group_Get g k = (g', Returned (v, Some e)) \<longrightarrow> mainCache g' = mainCache g)"
proof (intro conjI allI impI)
  fix picker peer bytes e
  assume a: "peers g = Some picker \<and> picker k = (Some peer, True) \<and> peer (name g) k = (bytes, Some e)"
  then have lp: "local_path g k" by (simp add: local_path_def)
  have lf: "load_fn k g = load_local k g" by (rule load_fn_local[OF lp])
  show "snd (Group_load g k) = snd (Group_getLocally g k)"
    unfolding Group_load_fresh[OF assms] lf
    by (auto simp: load_local_def Group_getLocally_def Let_def split: prod.splits option.splits outcome.splits)
  show "mainCache (fst (Group_load g k)) = mainCache (fst (Group_getLocally g k))"
    unfolding Group_load_fresh[OF assms] lf
    by (auto simp: load_local_def Group_getLocally_def Let_def split: prod.splits option.splits outcome.splits)
next
  fix bytes e c
  assume a: "k \<noteq> [] \<and> cache_get (mainCache g) k = Some (c, None) \<and>
            local_path g k \<and> getter g k = (bytes, Some e)"
  then have c: "c = mainCache g" using cache_get_miss by blast
  have lf: "load_fn k g = load_local k g" using a by (intro load_fn_local) simp
  have "snd (Group_load g k) = Returned (ByteView [], Some e)"
    unfolding Group_load_fresh[OF assms] lf load_local_cases using a by simp
  then show "snd (Group_Get g k) = Returned (ByteView [], Some e)"
    using a c by (simp add: Group_Get_def)
next
  fix g' v e assume "Group_load g k = (g', Returned (v, Some e))"
  then show "mainCache g' = mainCache g" by (rule Group_load_error_keeps_cache)
next
  fix g' v e assume a: "Group_Get g k = (g', Returned (v, Some e))"
  show "mainCache g' = mainCache g"
  proof (cases "k = []")
    case True
    then show ?thesis using a by (simp add: Group_Get_def)
  next
    case False
    then obtain c where c: "cache_get (mainCache g) k = Some (c, None)"
        "Group_load (g\<lparr>mainCache := c\<rparr>) k = (g', Returned (v, Some e))"
      using a by (auto simp: Group_Get_def split: option.splits prod.splits)
    from cache_get_miss[OF c(1)] have "c = mainCache g" .
    then show ?thesis using Group_load_error_keeps_cache[OF c(2)] by simp
  qed
qed

theorem load_errors_witness:
  "in_flight (loader (scores (Some pick_failing))) ''Tom'' = None \<and>
   snd (Group_load (scores (Some pick_failing)) ''Tom'') = Returned (ByteView ''630'', None) \<and>
   cached (fst (Group_load (scores (Some pick_failing)) ''Tom'')) ''Tom'' \<and>
   snd (Group_Get (scores (Some pick_failing)) ''Kate'') = Returned (ByteView [], Some (Error ''Kate not exist'')) \<and>
   mainCache (fst (Group_Get (scores (Some pick_failing)) ''Kate'')) = mainCache (scores (Some pick_failing))"
proof -
  define g where "g = scores (Some pick_failing)"
  have h: "in_flight (loader g) k = None" for k by (simp add: g_def scores_def in_flight_def)
  have p: "peers g = Some pick_failing \<and> pick_failing k = (Some peer_failing, True) \<and>
      peer_failing (name g) k = ([], Some (Error ''server returned: 500 Internal Server Error''))" for k
    by (simp add: g_def scores_def pick_failing_def peer_failing_def)
  have loc: "Group_getLocally g ''Tom'' =
      (g\<lparr>mainCache := \<lparr>cacheBytes = 2048,
            lru = Some \<lparr>maxBytes = 2048, nbytes = 6, ll = [0],
                        elems = [0 \<mapsto> \<lparr>key = ''Tom'', value = ByteView ''630''\<rparr>],
                        cache = [''Tom'' \<mapsto> 0], OnEvicted = False, evicted = [], nextElem = 1\<rparr>\<rparr>\<rparr>,
       Returned (ByteView ''630'', None))"
    by (simp add: Group_getLocally_def Group_populateCache_def cache_add_def g_def scores_def
        db_getter_def db_def cloneBytes_def ByteView_Len_def lru_eval)
  from load_errors[OF h, of "''Tom''"] p[of "''Tom''"] have
    a: "snd (Group_load g ''Tom'') = snd (Group_getLocally g ''Tom'')"
       "mainCache (fst (Group_load g ''Tom'')) = mainCache (fst (Group_getLocally g ''Tom''))"
    by blast+
  have 1: "snd (Group_load g ''Tom'') = Returned (ByteView ''630'', None)" using a(1) loc by simp
  have 2: "cached (fst (Group_load g ''Tom'')) ''Tom''" using a(2) loc by (simp add: cached_def)
  have miss: "''Kate'' \<noteq> [] \<and> cache_get (mainCache g) ''Kate'' = Some (mainCache g, None) \<and>
      local_path g ''Kate'' \<and> getter g ''Kate'' = ([], Some (Error ''Kate not exist''))"
    by (simp add: g_def scores_def cache_get_def local_path_def pick_failing_def peer_failing_def
        db_getter_def db_def)
  from load_errors[OF h, of "''Kate''"] miss have
    3: "snd (Group_Get g ''Kate'') = Returned (ByteView [], Some (Error ''Kate not exist''))" by blast
  obtain g' where g': "Group_Get g ''Kate'' = (g', Returned (ByteView [], Some (Error ''Kate not exist'')))"
    using 3 by (cases "Group_Get g ''Kate''") auto
  from load_errors[OF h, of "''Kate''"] g' have "mainCache g' = mainCache g" by blast
  then have 4: "mainCache (fst (Group_Get g ''Kate'')) = mainCache g" using g' by simp
  from h[of "''Tom''"] 1 2 3 4 show ?thesis unfolding g_def by blast
qed

text \<open>
  Claim C3 (a panic in the function given to \<open>Do\<close>), as stated: the map entry for the
  key is still removed and a later \<open>Do\<close> starts a fresh execution. After a \<open>Do\<close> whose
  function panics the entry is still in the map, its latch unreleased, and the next
  \<open>Do\<close> for the key waits on it instead of running its function.
\<close>

theorem Do_panic_counterexample:
  "in_flight (fst (singleflight_Do sf0 ''x'' panicking_fn ())) ''x'' = Some \<lparr>wg = 1, val = None, err = None\<rparr> \<and>
   snd (snd (singleflight_Do (fst (singleflight_Do sf0 ''x'' panicking_fn ())) ''x'' bar_fn ())) = Hangs"
  by (simp add: singleflight_Do_def sf0_def panicking_fn_def bar_fn_def in_flight_def Let_def)

text \<open>
  Claim C3, amended. \<open>Do\<close> has no cleanup for a panic: when the function panics, the
  panic reaches the caller that ran it, the entry for the key stays in the map with
  its counter at 1, and every later \<open>Do\<close> for the key waits on that entry without
  running its function. When the function returns, the entry is removed and a later
  \<open>Do\<close> for the key runs its function.
\<close>

theorem Do_panic:
  assumes "in_flight g k = None"
  shows "(\<forall>env'. fn env = (env', Panicked) \<longrightarrow>
            (\<exists>g'. singleflight_Do g k fn env = (g', env', Panicked) \<and>
                  in_flight g' k = Some \<lparr>wg = 1, val = None, err = None\<rparr> \<and>
                  (\<forall>fn2 env2. singleflight_Do g' k fn2 env2 = (g', env2, Hangs)))) \<and>
         (\<forall>env' r. fn env = (env', Returned r) \<longrightarrow>
            (\<exists>g'. singleflight_Do g k fn env = (g', env', Returned r) \<and> in_flight g' k = None \<and>
                  (\<forall>fn2 env2 env2' r2. fn2 env2 = (env2', Returned r2) \<longrightarrow>
                       snd (singleflight_Do g' k fn2 env2) = (env2', Returned r2))))"
proof (intro conjI allI impI)
  fix env' assume p: "fn env = (env', Panicked)"
  define g' where "g' = g\<lparr>calls := Some ((case calls g of None \<Rightarrow> Map.empty | Some m' \<Rightarrow> m')
                 (k \<mapsto> \<lparr>wg = 1, val = None, err = None\<rparr>))\<rparr>"
  have "singleflight_Do g k fn env = (g', env', Panicked)"
    using p by (simp add: Do_fresh[OF assms] g'_def)
  moreover have "in_flight g' k = Some \<lparr>wg = 1, val = None, err = None\<rparr>"
    by (simp add: in_flight_def g'_def)
  moreover have "\<forall>fn2 env2. singleflight_Do g' k fn2 env2 = (g', env2, Hangs)"
    by (simp add: singleflight_Do_def g'_def Let_def)
  ultimately show "\<exists>g'. singleflight_Do g k fn env = (g', env', Panicked) \<and>
                  in_flight g' k = Some \<lparr>wg = 1, val = None, err = None\<rparr> \<and>
                  (\<forall>fn2 env2. singleflight_Do g' k fn2 env2 = (g', env2, Hangs))" by blast
next
  fix env' r assume p: "fn env = (env', Returned r)"
  define g' where "g' = g\<lparr>calls := Some ((case calls g of None \<Rightarrow> Map.empty | Some m' \<Rightarrow> m')(k := None))\<rparr>"
  have "singleflight_Do g k fn env = (g', env', Returned r)"
    using p by (simp add: Do_fresh[OF assms] g'_def)
  moreover have n: "in_flight g' k = None"
    by (simp add: in_flight_def g'_def)
  moreover have "\<forall>fn2 env2 env2' r2. fn2 env2 = (env2', Returned r2) \<longrightarrow>
                       snd (singleflight_Do g' k fn2 env2) = (env2', Returned r2)"
    by (simp add: Do_fresh[OF n])
  ultimately show "\<exists>g'. singleflight_Do g k fn env = (g', env', Returned r) \<and> in_flight g' k = None \<and>
                  (\<forall>fn2 env2 env2' r2. fn2 env2 = (env2', Returned r2) \<longrightarrow>
                       snd (singleflight_Do g' k fn2 env2) = (env2', Returned r2))" by blast
qed

theorem Do_panic_witness:
  "in_flight sf0 ''x'' = None \<and>
   (\<exists>g'. singleflight_Do sf0 ''x'' panicking_fn () = (g', (), Panicked) \<and>
         in_flight g' ''x'' = Some \<lparr>wg = 1, val = None, err = None\<rparr> \<and>
         singleflight_Do g' ''x'' bar_fn () = (g', (), Hangs)) \<and>
   (\<exists>g'. singleflight_Do sf0 ''x'' bar_fn () = (g', (), Returned (Some ''bar'', None)) \<and>
         in_flight g' ''x'' = None \<and>
         snd (singleflight_Do g' ''x'' bar_fn ()) = ((), Returned (Some ''bar'', None)))"
proof -
  have h: "in_flight sf0 ''x'' = None" by (simp add: in_flight_def sf0_def)
  have p: "panicking_fn () = ((), Panicked)" by (simp add: panicking_fn_def)
  have b: "bar_fn () = ((), Returned (Some ''bar'', None))" by (simp add: bar_fn_def)
  note A = Do_panic[OF h, of panicking_fn "()", THEN conjunct1, rule_format, OF p]
  then obtain g1 where g1: "singleflight_Do sf0 ''x'' panicking_fn () = (g1, (), Panicked) \<and>
         in_flight g1 ''x'' = Some \<lparr>wg = 1, val = None, err = None\<rparr> \<and>
         (\<forall>fn2 (env2::unit). singleflight_Do g1 ''x'' fn2 env2 = (g1, env2, Hangs))" ..
  have g1c: "singleflight_Do g1 ''x'' bar_fn () = (g1, (), Hangs)"
    by (rule g1[THEN conjunct2, THEN conjunct2, rule_format])
  have 1: "\<exists>g'. singleflight_Do sf0 ''x'' panicking_fn () = (g', (), Panicked) \<and>
         in_flight g' ''x'' = Some \<lparr>wg = 1, val = None, err = None\<rparr> \<and>
         singleflight_Do g' ''x'' bar_fn () = (g', (), Hangs)"
    by (rule exI[of _ g1]) (intro conjI g1[THEN conjunct1] g1[THEN conjunct2, THEN conjunct1] g1c)
  note B = Do_panic[OF h, of bar_fn "()", THEN conjunct2, rule_format, OF b]
  then obtain g2 where g2: "singleflight_Do sf0 ''x'' bar_fn () = (g2, (), Returned (Some ''bar'', None)) \<and>
         in_flight g2 ''x'' = None \<and>
         (\<forall>fn2 (env2::unit) env2' r2. fn2 env2 = (env2', Returned r2) \<longrightarrow>
                       snd (singleflight_Do g2 ''x'' fn2 env2) = (env2', Returned r2))" ..
  have g2c: "snd (singleflight_Do g2 ''x'' bar_fn ()) = ((), Returned (Some ''bar'', None))"
    by (rule g2[THEN conjunct2, THEN conjunct2, rule_format, of bar_fn "()", OF b])
  have 2: "\<exists>g'. singleflight_Do sf0 ''x'' bar_fn () = (g', (), Returned (Some ''bar'', None)) \<and>
         in_flight g' ''x'' = None \<and>
         snd (singleflight_Do g' ''x'' bar_fn ()) = ((), Returned (Some ''bar'', None))"
    by (rule exI[of _ g2]) (intro conjI g2[THEN conjunct1] g2[THEN conjunct2, THEN conjunct1] g2c)
  show ?thesis by (intro conjI h 1 2)
qed

text \<open>
  Claim C4 (unknown namespace). The handler writes the 404 and then goes on to call
  \<open>Get\<close> on the nil group, as the \<open>return\<close> of the other error branches is missing:
  with a key the call panics after the 404; with an empty key \<open>Get\<close> returns
  \<open>key is required\<close> and the handler answers a second time, with \<open>http.Error\<close> and 500
  (the status stays 404, the message is appended to the body).
\<close>

theorem ServeHTTP_unknown_group:
  "HTTPPool_ServeHTTP (NewHTTPool ''http://localhost:8001'') Map.empty new_response ''/_geecache/nosuch/Tom''
     = (Map.empty,
        \<lparr>rw_header = [''Content-Type'' \<mapsto> ''text/plain; charset=utf-8'', ''X-Content-Type-Options'' \<mapsto> ''nosniff''],
         rw_status = Some 404, rw_body = ''No such group: nosuch'' @ [CHR 0x0A]\<rparr>,
        Panicked) \<and>
   HTTPPool_ServeHTTP (NewHTTPool ''http://localhost:8001'') Map.empty new_response ''/_geecache/nosuch/''
     = (Map.empty,
        \<lparr>rw_header = [''Content-Type'' \<mapsto> ''text/plain; charset=utf-8'', ''X-Content-Type-Options'' \<mapsto> ''nosniff''],
         rw_status = Some 404,
         rw_body = ''No such group: nosuch'' @ [CHR 0x0A] @ ''key is required'' @ [CHR 0x0A]\<rparr>,
        Returned ())"
  by (simp add: HTTPPool_ServeHTTP_def NewHTTPool_def defaultBasePath_def HasPrefix_def SplitN_slash_2_def
      GetGroup_def Group_Get_ptr_def http_Error_def Header_Set_def WriteHeader_def Write_def
      new_response_def StatusNotFound_def StatusInternalServerError_def error_Error_def Let_def)

text \<open>
  Claim C9 (self-exclusion). For a pool whose ring has been set: \<open>PickPeer(k)\<close> returns
  \<open>(nil, false)\<close> when the ring's owner of \<open>k\<close> is the pool's own address, when the
  ring is empty, and when the ring yields the empty peer id; it returns a client and
  \<open>true\<close> only when the ring yields a non-empty peer id different from \<open>self\<close>, and the
  client is the one of that peer.
\<close>

theorem pickpeer_self_exclusion:
  assumes "ring p = Some r"
  shows "(Map_Get r k = self p \<longrightarrow> HTTPPool_PickPeer p k = Returned (None, False)) \<and>
         (keys r = [] \<longrightarrow> HTTPPool_PickPeer p k = Returned (None, False)) \<and>
         (Map_Get r k = [] \<longrightarrow> HTTPPool_PickPeer p k = Returned (None, False)) \<and>
         (\<forall>c. HTTPPool_PickPeer p k = Returned (c, True) \<longrightarrow>
              Map_Get r k \<noteq> [] \<and> Map_Get r k \<noteq> self p \<and> c = httpGetters p (Map_Get r k))"
  using assms by (auto simp: HTTPPool_PickPeer_def Let_def Map_Get_def)

theorem pickpeer_self_exclusion_witness:
  "ring pool3 = Some ring3 \<and> Map_Get ring3 ''23'' = self pool3 \<and>
   HTTPPool_PickPeer pool3 ''23'' = Returned (None, False) \<and>
   HTTPPool_PickPeer pool3 ''27'' = Returned (Some \<lparr>baseURL = ''2/_geecache/''\<rparr>, True) \<and>
   Map_Get ring3 ''27'' \<noteq> self pool3"
proof -
  have r: "ring pool3 = Some ring3" by (simp add: pool3_def)
  have o: "Map_Get ring3 ''23'' = self pool3" by code_simp
  have o2: "HTTPPool_PickPeer pool3 ''27'' = Returned (Some \<lparr>baseURL = ''2/_geecache/''\<rparr>, True)" by code_simp
  from pickpeer_self_exclusion[OF r, of "''23''"] o have 1: "HTTPPool_PickPeer pool3 ''23'' = Returned (None, False)"
    by blast
  from pickpeer_self_exclusion[OF r, of "''27''"] o2 have 2: "Map_Get ring3 ''27'' \<noteq> self pool3" by blast
  from r o 1 o2 2 show ?thesis by blast
qed

end
